theory Spec2Isabelle
  imports Main
begin

section \<open>Notifications and the downstream observer\<close>

text \<open>
  The three calls of the Observer contract. What the terminal observer has received is a
  list of notifications, oldest first.
\<close>

datatype ('v, 'e) notification = Next 'v | Error 'e | Complete

section \<open>The sequenceEqual operator (src/operator/sequenceEqual.ts)\<close>

text \<open>
  One subscription of \<^verbatim>\<open>source.sequenceEqual(compareTo, comparor)\<close> consists of three
  Subscriber objects: the coordinator (\<^verbatim>\<open>SequenceEqualSubscriber\<close>, fed by the primary
  source), the \<^verbatim>\<open>SequenceEqualCompareToSubscriber\<close> (fed by \<^verbatim>\<open>compareTo\<close>) and the
  downstream \<^verbatim>\<open>destination\<close> both were constructed with. The record holds the fields of
  all three:
  \<^item> \<open>buf_a\<close>, \<open>buf_b\<close>, \<open>oneComplete\<close>: the coordinator's \<^verbatim>\<open>_a\<close>, \<^verbatim>\<open>_b\<close>, \<^verbatim>\<open>_oneComplete\<close>;
  \<^item> \<open>isStopped\<close>: the coordinator's inherited \<^verbatim>\<open>isStopped\<close>;
  \<^item> \<open>bStopped\<close>: the \<^verbatim>\<open>isStopped\<close> of the compareTo subscriber;
  \<^item> \<open>dStopped\<close>: the \<^verbatim>\<open>isStopped\<close> of the destination;
  \<^item> \<open>out\<close>: the notifications the destination has passed on to the terminal observer;
  \<^item> \<open>calls\<close>: a ghost trace, not a field of the source: the pairs \<open>(a, b)\<close> on which
    the comparor (or \<^verbatim>\<open>===\<close>) has been evaluated, in order. Evaluating the comparor is
    a call into user code, and the trace makes it observable.

  Values are compared with HOL equality where the source uses \<^verbatim>\<open>===\<close>; the two differ on
  \<^verbatim>\<open>NaN\<close> only. A comparor either raises (\<open>Inl\<close>, what \<^verbatim>\<open>tryCatch\<close> turns into
  \<^verbatim>\<open>errorObject\<close>) or returns a boolean (\<open>Inr\<close>).
\<close>

record ('a, 'e) seq_state =
  buf_a :: "'a list"
  buf_b :: "'a list"
  oneComplete :: bool
  isStopped :: bool
  bStopped :: bool
  dStopped :: bool
  out :: "(bool, 'e) notification list"
  calls :: "('a \<times> 'a) list"

type_synonym ('a, 'e) comparor = "('a \<Rightarrow> 'a \<Rightarrow> 'e + bool) option"

definition init_state :: "('a, 'e) seq_state" where
  "init_state = \<lparr>buf_a = [], buf_b = [], oneComplete = False, isStopped = False,
                 bStopped = False, dStopped = False, out = [], calls = []\<rparr>"

subsection \<open>The base Subscriber protocol\<close>

text \<open>
  Modelled from the spec: the classes \<^verbatim>\<open>Subscriber\<close> and \<^verbatim>\<open>Subscription\<close> are imported by
  the source but are not part of it. Section 4.2 of the specification: a Subscriber is
  \<open>Active\<close> or \<open>Stopped\<close>; in \<open>Active\<close>, \<^verbatim>\<open>next\<close> forwards the value, \<^verbatim>\<open>error\<close> and
  \<^verbatim>\<open>complete\<close> forward the notification, move to \<open>Stopped\<close> and unsubscribe the
  Subscriber itself; any notification received while \<open>Stopped\<close> is a no-op. Section 5:
  unsubscribing the output propagates synchronously to every upstream subscription,
  including both sources of a dual-source operator, and a notification arriving at a
  stopped Subscriber is dropped. So when the destination processes a terminal
  notification, the coordinator and the compareTo subscriber are stopped with it.
\<close>

definition unsubscribe :: "('a, 'e) seq_state \<Rightarrow> ('a, 'e) seq_state" where
  "unsubscribe s = s\<lparr>isStopped := True, bStopped := True\<rparr>"

definition destination_next :: "bool \<Rightarrow> ('a, 'e) seq_state \<Rightarrow> ('a, 'e) seq_state" where
  "destination_next v s = (if dStopped s then s else s\<lparr>out := out s @ [Next v]\<rparr>)"

definition destination_error :: "'e \<Rightarrow> ('a, 'e) seq_state \<Rightarrow> ('a, 'e) seq_state" where
  "destination_error e s =
     (if dStopped s then s
      else unsubscribe (s\<lparr>dStopped := True, out := out s @ [Error e]\<rparr>))"

definition destination_complete :: "('a, 'e) seq_state \<Rightarrow> ('a, 'e) seq_state" where
  "destination_complete s =
     (if dStopped s then s
      else unsubscribe (s\<lparr>dStopped := True, out := out s @ [Complete]\<rparr>))"

subsection \<open>SequenceEqualSubscriber\<close>

text \<open>\<^verbatim>\<open>emit(value)\<close>: \<^verbatim>\<open>destination.next(value); destination.complete();\<close>\<close>

definition emit :: "bool \<Rightarrow> ('a, 'e) seq_state \<Rightarrow> ('a, 'e) seq_state" where
  "emit v s = destination_complete (destination_next v s)"

text \<open>
  The body of the \<^verbatim>\<open>while\<close> loop of \<^verbatim>\<open>checkValues\<close>, after the two \<^verbatim>\<open>shift()\<close> calls have
  produced \<open>a\<close> and \<open>b\<close>. With a comparor, a raised error goes to
  \<^verbatim>\<open>destination.error\<close>; \<^verbatim>\<open>areEqual\<close> is then the \<^verbatim>\<open>errorObject\<close>, which is truthy, so
  \<^verbatim>\<open>emit(false)\<close> is not called. There is no \<^verbatim>\<open>break\<close> and no \<^verbatim>\<open>return\<close> in the body.
\<close>

definition compare_pair ::
  "('a, 'e) comparor \<Rightarrow> 'a \<Rightarrow> 'a \<Rightarrow> ('a, 'e) seq_state \<Rightarrow> ('a, 'e) seq_state" where
  "compare_pair comparor a b s =
     (let s1 = s\<lparr>calls := calls s @ [(a, b)]\<rparr> in
      case comparor of
        Some f \<Rightarrow>
          (case f a b of
             Inl e \<Rightarrow> destination_error e s1
           | Inr areEqual \<Rightarrow> if \<not> areEqual then emit False s1 else s1)
      | None \<Rightarrow> if \<not> (a = b) then emit False s1 else s1)"

text \<open>
  \<^verbatim>\<open>checkValues()\<close>: \<^verbatim>\<open>while (_a.length > 0 && _b.length > 0)\<close>, shift one value off each
  buffer and compare the two.
\<close>

function checkValues :: "('a, 'e) comparor \<Rightarrow> ('a, 'e) seq_state \<Rightarrow> ('a, 'e) seq_state" where
  "checkValues comparor s =
     (case buf_a s of
        [] \<Rightarrow> s
      | a # as \<Rightarrow>
          (case buf_b s of
             [] \<Rightarrow> s
           | b # bs \<Rightarrow>
               checkValues comparor (compare_pair comparor a b (s\<lparr>buf_a := as, buf_b := bs\<rparr>))))"
  by pat_completeness auto
termination
  by (relation "measure (\<lambda>(comparor, s). length (buf_a s))")
    (auto simp: compare_pair_def emit_def destination_next_def destination_error_def
       destination_complete_def unsubscribe_def Let_def split: option.splits sum.splits)

declare checkValues.simps [simp del]

text \<open>
  \<^verbatim>\<open>_next(value)\<close>, \<^verbatim>\<open>_complete()\<close> and \<^verbatim>\<open>nextB(value)\<close>. \<^verbatim>\<open>_a.push(value)\<close> appends at
  the end; \<^verbatim>\<open>shift()\<close> takes from the front.
\<close>

definition seq_next ::
  "('a, 'e) comparor \<Rightarrow> 'a \<Rightarrow> ('a, 'e) seq_state \<Rightarrow> ('a, 'e) seq_state" where
  "seq_next comparor v s =
     (if oneComplete s \<and> length (buf_b s) = 0 then emit False s
      else checkValues comparor (s\<lparr>buf_a := buf_a s @ [v]\<rparr>))"

definition seq_complete :: "('a, 'e) seq_state \<Rightarrow> ('a, 'e) seq_state" where
  "seq_complete s =
     (if oneComplete s then emit (length (buf_a s) = 0 \<and> length (buf_b s) = 0) s
      else s\<lparr>oneComplete := True\<rparr>)"

definition nextB ::
  "('a, 'e) comparor \<Rightarrow> 'a \<Rightarrow> ('a, 'e) seq_state \<Rightarrow> ('a, 'e) seq_state" where
  "nextB comparor v s =
     (if oneComplete s \<and> length (buf_a s) = 0 then emit False s
      else checkValues comparor (s\<lparr>buf_b := buf_b s @ [v]\<rparr>))"

text \<open>
  Modelled from the spec: the public \<^verbatim>\<open>next\<close>, \<^verbatim>\<open>error\<close> and \<^verbatim>\<open>complete\<close> of the base
  \<^verbatim>\<open>Subscriber\<close>, which the coordinator inherits and the primary source calls. Each is
  a no-op on a stopped Subscriber; \<^verbatim>\<open>error\<close> and \<^verbatim>\<open>complete\<close> stop it and then run
  the hook \<^verbatim>\<open>_error\<close> or \<^verbatim>\<open>_complete\<close>. The coordinator overrides \<^verbatim>\<open>_next\<close> and
  \<^verbatim>\<open>_complete\<close> (above) and keeps the inherited \<^verbatim>\<open>_error\<close>: forward the error to the
  destination, then unsubscribe.
\<close>

definition subscriber_next ::
  "('a, 'e) comparor \<Rightarrow> 'a \<Rightarrow> ('a, 'e) seq_state \<Rightarrow> ('a, 'e) seq_state" where
  "subscriber_next comparor v s = (if isStopped s then s else seq_next comparor v s)"

definition subscriber_error :: "'e \<Rightarrow> ('a, 'e) seq_state \<Rightarrow> ('a, 'e) seq_state" where
  "subscriber_error e s =
     (if isStopped s then s
      else unsubscribe (destination_error e (s\<lparr>isStopped := True\<rparr>)))"

definition subscriber_complete :: "('a, 'e) seq_state \<Rightarrow> ('a, 'e) seq_state" where
  "subscriber_complete s =
     (if isStopped s then s else seq_complete (s\<lparr>isStopped := True\<rparr>))"

subsection \<open>SequenceEqualCompareToSubscriber\<close>

text \<open>
  Modelled from the spec: the guards of the inherited \<^verbatim>\<open>next\<close>, \<^verbatim>\<open>error\<close> and
  \<^verbatim>\<open>complete\<close> of the subscriber of \<^verbatim>\<open>compareTo\<close>, on its own flag \<open>bStopped\<close>, as for the
  coordinator. The hooks behind the guards are the source's:
  \<^verbatim>\<open>_next(value) { this.parent.nextB(value); }\<close>,
  \<^verbatim>\<open>_error(err) { this.parent.error(err); }\<close> and
  \<^verbatim>\<open>_complete() { this.parent._complete(); }\<close>. The first and the third call the
  coordinator's methods directly; the second goes through the coordinator's public,
  guarded \<^verbatim>\<open>error\<close>.
\<close>

definition compareTo_next ::
  "('a, 'e) comparor \<Rightarrow> 'a \<Rightarrow> ('a, 'e) seq_state \<Rightarrow> ('a, 'e) seq_state" where
  "compareTo_next comparor v s = (if bStopped s then s else nextB comparor v s)"

definition compareTo_error :: "'e \<Rightarrow> ('a, 'e) seq_state \<Rightarrow> ('a, 'e) seq_state" where
  "compareTo_error e s =
     (if bStopped s then s else subscriber_error e (s\<lparr>bStopped := True\<rparr>))"

definition compareTo_complete :: "('a, 'e) seq_state \<Rightarrow> ('a, 'e) seq_state" where
  "compareTo_complete s =
     (if bStopped s then s else seq_complete (s\<lparr>bStopped := True\<rparr>))"

subsection \<open>Schedules of notifications\<close>

text \<open>
  The two sources push into the operator in some order. An event is one call of a source
  into its subscriber; a schedule is a list of events, and \<open>run\<close> handles them one after
  the other, each to its end before the next starts (the protocol is synchronous).
\<close>

datatype ('a, 'e) event =
  A_next 'a | A_error 'e | A_complete | B_next 'a | B_error 'e | B_complete

fun step :: "('a, 'e) comparor \<Rightarrow> ('a, 'e) event \<Rightarrow> ('a, 'e) seq_state \<Rightarrow> ('a, 'e) seq_state" where
  "step comparor (A_next v) s = subscriber_next comparor v s"
| "step comparor (A_error e) s = subscriber_error e s"
| "step comparor A_complete s = subscriber_complete s"
| "step comparor (B_next v) s = compareTo_next comparor v s"
| "step comparor (B_error e) s = compareTo_error e s"
| "step comparor B_complete s = compareTo_complete s"

fun run :: "('a, 'e) comparor \<Rightarrow> ('a, 'e) event list \<Rightarrow> ('a, 'e) seq_state \<Rightarrow> ('a, 'e) seq_state" where
  "run comparor [] s = s"
| "run comparor (ev # evs) s = run comparor evs (step comparor ev s)"

text \<open>The comparison the loop body makes, as a value: the comparor's result, or \<^verbatim>\<open>a === b\<close>.\<close>

definition areEqual :: "('a, 'e) comparor \<Rightarrow> 'a \<Rightarrow> 'a \<Rightarrow> 'e + bool" where
  "areEqual comparor a b = (case comparor of Some f \<Rightarrow> f a b | None \<Rightarrow> Inr (a = b))"

text \<open>
  The result of comparing two complete sequences position by position: the first pair
  that raises gives the error, the first unequal pair gives \<open>false\<close>, a leftover on either
  side gives \<open>false\<close>, and two sequences exhausted together give \<open>true\<close>.
\<close>

fun seq_result :: "('a, 'e) comparor \<Rightarrow> 'a list \<Rightarrow> 'a list \<Rightarrow> (bool, 'e) notification list" where
  "seq_result comparor [] [] = [Next True, Complete]"
| "seq_result comparor (x # xs) (y # ys) =
     (case areEqual comparor x y of
        Inl e \<Rightarrow> [Error e]
      | Inr eq \<Rightarrow> if eq then seq_result comparor xs ys else [Next False, Complete])"
| "seq_result comparor [] (y # ys) = [Next False, Complete]"
| "seq_result comparor (x # xs) [] = [Next False, Complete]"

subsection \<open>The coordination state machine of the specification\<close>

text \<open>
  This machine is written from the words of the specification (section 4.5), not from
  the source; the source is compared with it below. The coordinator is \<open>Collecting\<close>,
  with the two buffers and, for each source, whether it has completed; or a boolean
  result has been determined (\<open>Decided\<close>); or an error has ended the pipeline (\<open>Failed\<close>).
  A value arriving after the other source has completed with an empty buffer determines
  \<open>false\<close>; otherwise it is buffered and the drain step pops pairs while both buffers are
  non-empty: a comparor that raises fails, an unequal pair determines \<open>false\<close> and ends
  the drain at once. The second completion determines \<open>true\<close> exactly when both buffers
  are empty. An error of a source fails. A source that has completed pushes nothing
  more, and \<open>Decided\<close> and \<open>Failed\<close> are final.
\<close>

datatype ('a, 'e) phase =
  Collecting "'a list" "'a list" bool bool | Decided bool | Failed 'e

fun spec_drain ::
  "('a, 'e) comparor \<Rightarrow> 'a list \<Rightarrow> 'a list \<Rightarrow> bool \<Rightarrow> bool \<Rightarrow> ('a, 'e) phase" where
  "spec_drain comparor (a # as) (b # bs) aDone bDone =
     (case areEqual comparor a b of
        Inl e \<Rightarrow> Failed e
      | Inr eq \<Rightarrow> if eq then spec_drain comparor as bs aDone bDone else Decided False)"
| "spec_drain comparor [] pb aDone bDone = Collecting [] pb aDone bDone"
| "spec_drain comparor (a # as) [] aDone bDone = Collecting (a # as) [] aDone bDone"

fun spec_step :: "('a, 'e) comparor \<Rightarrow> ('a, 'e) event \<Rightarrow> ('a, 'e) phase \<Rightarrow> ('a, 'e) phase" where
  "spec_step comparor ev (Decided b) = Decided b"
| "spec_step comparor ev (Failed e) = Failed e"
| "spec_step comparor (A_next a) (Collecting pa pb aDone bDone) =
     (if aDone then Collecting pa pb aDone bDone
      else if bDone \<and> pb = [] then Decided False
      else spec_drain comparor (pa @ [a]) pb aDone bDone)"
| "spec_step comparor (B_next b) (Collecting pa pb aDone bDone) =
     (if bDone then Collecting pa pb aDone bDone
      else if aDone \<and> pa = [] then Decided False
      else spec_drain comparor pa (pb @ [b]) aDone bDone)"
| "spec_step comparor A_complete (Collecting pa pb aDone bDone) =
     (if aDone then Collecting pa pb aDone bDone
      else if bDone then Decided (pa = [] \<and> pb = [])
      else Collecting pa pb True bDone)"
| "spec_step comparor B_complete (Collecting pa pb aDone bDone) =
     (if bDone then Collecting pa pb aDone bDone
      else if aDone then Decided (pa = [] \<and> pb = [])
      else Collecting pa pb aDone True)"
| "spec_step comparor (A_error e) (Collecting pa pb aDone bDone) =
     (if aDone then Collecting pa pb aDone bDone else Failed e)"
| "spec_step comparor (B_error e) (Collecting pa pb aDone bDone) =
     (if bDone then Collecting pa pb aDone bDone else Failed e)"

fun spec_run :: "('a, 'e) comparor \<Rightarrow> ('a, 'e) event list \<Rightarrow> ('a, 'e) phase \<Rightarrow> ('a, 'e) phase" where
  "spec_run comparor [] ph = ph"
| "spec_run comparor (ev # evs) ph = spec_run comparor evs (spec_step comparor ev ph)"

definition spec_init :: "('a, 'e) phase" where
  "spec_init = Collecting [] [] False False"

section \<open>The filter operator\<close>

text \<open>
  \<^verbatim>\<open>FilterSubscriber\<close> has one field of its own, \<^verbatim>\<open>count\<close>; \<open>fStopped\<close> is its inherited
  \<^verbatim>\<open>isStopped\<close>, \<open>fdStopped\<close> the \<^verbatim>\<open>isStopped\<close> of its destination and \<open>fout\<close> what the
  terminal observer has received. \<^verbatim>\<open>count\<close> is a JavaScript number; it is exact up to
  \<open>2 ^ 53\<close> and modelled as a natural number. The predicate is called with the value
  and \<^verbatim>\<open>this.count++\<close>, the count before the increment, and either raises (\<open>Inl\<close>) or
  returns (\<open>Inr\<close>) a result whose truthiness is the boolean. \<^verbatim>\<open>thisArg\<close> is only the
  \<^verbatim>\<open>this\<close> of the call and is part of the predicate here.
\<close>

record ('a, 'e) filter_state =
  count :: nat
  fStopped :: bool
  fdStopped :: bool
  fout :: "('a, 'e) notification list"

definition filter_init :: "('a, 'e) filter_state" where
  "filter_init = \<lparr>count = 0, fStopped = False, fdStopped = False, fout = []\<rparr>"

text \<open>
  Modelled from the spec: the destination of the filter and the base \<^verbatim>\<open>Subscriber\<close>
  protocol, as for sequenceEqual: a stopped destination drops everything, a terminal
  notification stops it and unsubscribes the \<^verbatim>\<open>FilterSubscriber\<close> upstream of it; the
  inherited \<^verbatim>\<open>error\<close> and \<^verbatim>\<open>complete\<close> pass the notification through.
\<close>

definition fdest_next :: "'a \<Rightarrow> ('a, 'e) filter_state \<Rightarrow> ('a, 'e) filter_state" where
  "fdest_next v s = (if fdStopped s then s else s\<lparr>fout := fout s @ [Next v]\<rparr>)"

definition fdest_error :: "'e \<Rightarrow> ('a, 'e) filter_state \<Rightarrow> ('a, 'e) filter_state" where
  "fdest_error e s =
     (if fdStopped s then s
      else s\<lparr>fStopped := True, fdStopped := True, fout := fout s @ [Error e]\<rparr>)"

definition fdest_complete :: "('a, 'e) filter_state \<Rightarrow> ('a, 'e) filter_state" where
  "fdest_complete s =
     (if fdStopped s then s
      else s\<lparr>fStopped := True, fdStopped := True, fout := fout s @ [Complete]\<rparr>)"

text \<open>
  \<^verbatim>\<open>FilterSubscriber._next(value)\<close>: the \<^verbatim>\<open>catch\<close> branch forwards the error and returns;
  otherwise a truthy result forwards the value.
\<close>

definition filter_next ::
  "('a \<Rightarrow> nat \<Rightarrow> 'e + bool) \<Rightarrow> 'a \<Rightarrow> ('a, 'e) filter_state \<Rightarrow> ('a, 'e) filter_state" where
  "filter_next predicate v s =
     (let s1 = s\<lparr>count := count s + 1\<rparr> in
      case predicate v (count s) of
        Inl err \<Rightarrow> fdest_error err s1
      | Inr result \<Rightarrow> if result then fdest_next v s1 else s1)"

datatype ('a, 'e) src_event = Src_next 'a | Src_error 'e | Src_complete

text \<open>
  Modelled from the spec: the source of the filter calls the inherited \<^verbatim>\<open>next\<close>,
  \<^verbatim>\<open>error\<close> and \<^verbatim>\<open>complete\<close> of the \<^verbatim>\<open>FilterSubscriber\<close>, each a no-op once it is
  stopped; \<^verbatim>\<open>next\<close> runs the hook \<^verbatim>\<open>_next\<close> above, the other two stop the subscriber
  and pass the notification to the destination.
\<close>

fun filter_step ::
  "('a \<Rightarrow> nat \<Rightarrow> 'e + bool) \<Rightarrow> ('a, 'e) src_event \<Rightarrow> ('a, 'e) filter_state \<Rightarrow> ('a, 'e) filter_state" where
  "filter_step predicate (Src_next v) s = (if fStopped s then s else filter_next predicate v s)"
| "filter_step predicate (Src_error e) s =
     (if fStopped s then s else fdest_error e (s\<lparr>fStopped := True\<rparr>))"
| "filter_step predicate Src_complete s =
     (if fStopped s then s else fdest_complete (s\<lparr>fStopped := True\<rparr>))"

fun filter_run ::
  "('a \<Rightarrow> nat \<Rightarrow> 'e + bool) \<Rightarrow> ('a, 'e) src_event list \<Rightarrow> ('a, 'e) filter_state \<Rightarrow> ('a, 'e) filter_state" where
  "filter_run predicate [] s = s"
| "filter_run predicate (ev # evs) s = filter_run predicate evs (filter_step predicate ev s)"

text \<open>The elements of \<open>S\<close> the predicate \<open>P\<close> passes, \<open>P\<close> being given the position from \<open>n\<close> on.\<close>

fun passing :: "('a \<Rightarrow> nat \<Rightarrow> 'e + bool) \<Rightarrow> nat \<Rightarrow> 'a list \<Rightarrow> 'a list" where
  "passing P n [] = []"
| "passing P n (x # xs) = (if P x n = Inr True then x # passing P (Suc n) xs else passing P (Suc n) xs)"

section \<open>Invariants of the sequenceEqual subscription\<close>

text \<open>
  What the terminal observer can have received: nothing while the destination is active;
  one boolean followed by the completion, or one error, once it is stopped, and then the
  coordinator and the compareTo subscriber are stopped too.
\<close>

definition out_shape :: "('a, 'e) seq_state \<Rightarrow> bool" where
  "out_shape s \<longleftrightarrow>
     (if dStopped s
      then isStopped s \<and> bStopped s \<and>
           ((\<exists>b. out s = [Next b, Complete]) \<or> (\<exists>e. out s = [Error e]))
      else out s = [])"

text \<open>
  How the flags relate to the schedule \<open>es\<close> handled so far: a stopped destination has
  stopped both subscribers; \<open>oneComplete\<close> is set only when a source has completed; a
  subscriber that is stopped while the other is live was stopped by its own source's
  completion.
\<close>

definition flags_inv :: "('a, 'e) event list \<Rightarrow> ('a, 'e) seq_state \<Rightarrow> bool" where
  "flags_inv es s \<longleftrightarrow>
     (buf_a s = [] \<or> buf_b s = []) \<and>
     (dStopped s \<longrightarrow> isStopped s \<and> bStopped s) \<and>
     (oneComplete s \<longrightarrow> isStopped s \<or> bStopped s) \<and>
     (isStopped s \<and> \<not> bStopped s \<longrightarrow> oneComplete s \<and> A_complete \<in> set es) \<and>
     (bStopped s \<and> \<not> isStopped s \<longrightarrow> oneComplete s \<and> B_complete \<in> set es) \<and>
     (A_complete \<in> set es \<longrightarrow> isStopped s) \<and>
     (B_complete \<in> set es \<longrightarrow> bStopped s)"

text \<open>
  What is still to come from a source: \<open>Some xs\<close>, the values \<open>xs\<close> and then the
  completion, or \<open>None\<close> once it has completed. \<open>collecting s ra rb\<close> holds in a state
  in which nothing has been delivered and exactly the sources with nothing to come have
  stopped their subscribers.
\<close>

fun pendA :: "'a list option \<Rightarrow> ('a, 'e) event list" where
  "pendA None = []"
| "pendA (Some xs) = map A_next xs @ [A_complete]"

fun pendB :: "'a list option \<Rightarrow> ('a, 'e) event list" where
  "pendB None = []"
| "pendB (Some ys) = map B_next ys @ [B_complete]"

fun rest_of :: "'a list option \<Rightarrow> 'a list" where
  "rest_of None = []"
| "rest_of (Some xs) = xs"

definition collecting :: "('a, 'e) seq_state \<Rightarrow> 'a list option \<Rightarrow> 'a list option \<Rightarrow> bool" where
  "collecting s ra rb \<longleftrightarrow>
     \<not> dStopped s \<and> out s = [] \<and> (buf_a s = [] \<or> buf_b s = []) \<and>
     (isStopped s \<longleftrightarrow> ra = None) \<and> (bStopped s \<longleftrightarrow> rb = None) \<and>
     (oneComplete s \<longleftrightarrow> ra = None \<or> rb = None) \<and> (ra \<noteq> None \<or> rb \<noteq> None)"

text \<open>
  How a state of the source's subscribers stands for a phase of the specification's
  machine. In \<open>Failed\<close> the terminal observer has the error, or nothing when the error
  was dropped on the way.
\<close>

fun refines :: "('a, 'e) seq_state \<Rightarrow> ('a, 'e) phase \<Rightarrow> bool" where
  "refines s (Collecting pa pb aDone bDone) \<longleftrightarrow>
     \<not> dStopped s \<and> out s = [] \<and> buf_a s = pa \<and> buf_b s = pb \<and> (pa = [] \<or> pb = []) \<and>
     isStopped s = aDone \<and> bStopped s = bDone \<and> oneComplete s = (aDone \<or> bDone) \<and>
     \<not> (aDone \<and> bDone)"
| "refines s (Decided b) \<longleftrightarrow> out s = [Next b, Complete] \<and> isStopped s \<and> bStopped s"
| "refines s (Failed e) \<longleftrightarrow> (out s = [Error e] \<or> out s = []) \<and> isStopped s \<and> bStopped s"

section \<open>Basic facts about the model\<close>

lemma sel_unsubscribe [simp]:
  "buf_a (unsubscribe s) = buf_a s" "buf_b (unsubscribe s) = buf_b s"
  "oneComplete (unsubscribe s) = oneComplete s" "isStopped (unsubscribe s)"
  "bStopped (unsubscribe s)" "dStopped (unsubscribe s) = dStopped s"
  "out (unsubscribe s) = out s" "calls (unsubscribe s) = calls s"
  by (simp_all add: unsubscribe_def)

lemma sel_destination_next [simp]:
  "buf_a (destination_next v s) = buf_a s" "buf_b (destination_next v s) = buf_b s"
  "oneComplete (destination_next v s) = oneComplete s"
  "isStopped (destination_next v s) = isStopped s"
  "bStopped (destination_next v s) = bStopped s"
  "dStopped (destination_next v s) = dStopped s"
  "calls (destination_next v s) = calls s"
  "out (destination_next v s) = (if dStopped s then out s else out s @ [Next v])"
  by (simp_all add: destination_next_def)

lemma sel_destination_error [simp]:
  "buf_a (destination_error e s) = buf_a s" "buf_b (destination_error e s) = buf_b s"
  "oneComplete (destination_error e s) = oneComplete s"
  "isStopped (destination_error e s) = (dStopped s \<longrightarrow> isStopped s)"
  "bStopped (destination_error e s) = (dStopped s \<longrightarrow> bStopped s)"
  "dStopped (destination_error e s)"
  "calls (destination_error e s) = calls s"
  "out (destination_error e s) = (if dStopped s then out s else out s @ [Error e])"
  by (simp_all add: destination_error_def)

lemma sel_destination_complete [simp]:
  "buf_a (destination_complete s) = buf_a s" "buf_b (destination_complete s) = buf_b s"
  "oneComplete (destination_complete s) = oneComplete s"
  "isStopped (destination_complete s) = (dStopped s \<longrightarrow> isStopped s)"
  "bStopped (destination_complete s) = (dStopped s \<longrightarrow> bStopped s)"
  "dStopped (destination_complete s)"
  "calls (destination_complete s) = calls s"
  "out (destination_complete s) = (if dStopped s then out s else out s @ [Complete])"
  by (simp_all add: destination_complete_def)

lemma sel_emit [simp]:
  "buf_a (emit v s) = buf_a s" "buf_b (emit v s) = buf_b s"
  "oneComplete (emit v s) = oneComplete s"
  "isStopped (emit v s) = (dStopped s \<longrightarrow> isStopped s)"
  "bStopped (emit v s) = (dStopped s \<longrightarrow> bStopped s)"
  "dStopped (emit v s)"
  "calls (emit v s) = calls s"
  "out (emit v s) = (if dStopped s then out s else out s @ [Next v, Complete])"
  by (simp_all add: emit_def)

lemma compare_pair_areEqual:
  "compare_pair comparor a b s =
     (case areEqual comparor a b of
        Inl e \<Rightarrow> destination_error e (s\<lparr>calls := calls s @ [(a, b)]\<rparr>)
      | Inr eq \<Rightarrow> if eq then s\<lparr>calls := calls s @ [(a, b)]\<rparr>
                  else emit False (s\<lparr>calls := calls s @ [(a, b)]\<rparr>))"
  by (simp add: compare_pair_def areEqual_def Let_def split: option.splits sum.splits)

lemma sel_compare_pair [simp]:
  "buf_a (compare_pair comparor a b s) = buf_a s"
  "buf_b (compare_pair comparor a b s) = buf_b s"
  "oneComplete (compare_pair comparor a b s) = oneComplete s"
  "calls (compare_pair comparor a b s) = calls s @ [(a, b)]"
  by (simp_all add: compare_pair_areEqual split: sum.splits)

lemma checkValues_Nil_a [simp]: "buf_a s = [] \<Longrightarrow> checkValues comparor s = s"
  by (simp add: checkValues.simps)

lemma checkValues_Nil_b [simp]: "buf_b s = [] \<Longrightarrow> checkValues comparor s = s"
  by (simp add: checkValues.simps split: list.splits)

lemma checkValues_Cons:
  "buf_a s = a # as \<Longrightarrow> buf_b s = b # bs \<Longrightarrow>
   checkValues comparor s =
     checkValues comparor (compare_pair comparor a b (s\<lparr>buf_a := as, buf_b := bs\<rparr>))"
  by (subst checkValues.simps) simp

lemma checkValues_drains:
  "buf_a (checkValues comparor s) = [] \<or> buf_b (checkValues comparor s) = []"
proof (induction comparor s rule: checkValues.induct)
  case (1 comparor s)
  show ?case
  proof (cases "buf_a s")
    case Nil
    then show ?thesis by simp
  next
    case (Cons a as)
    note A = this
    show ?thesis
    proof (cases "buf_b s")
      case Nil
      then show ?thesis by simp
    next
      case (Cons b bs)
      with A "1.IH" [OF A Cons] show ?thesis
        by (simp add: checkValues_Cons [OF A Cons])
    qed
  qed
qed

lemma stopped_step [simp]: "isStopped s \<Longrightarrow> bStopped s \<Longrightarrow> step comparor ev s = s"
  by (cases ev)
    (simp_all add: subscriber_next_def subscriber_error_def subscriber_complete_def
      compareTo_next_def compareTo_error_def compareTo_complete_def)

lemma stopped_run [simp]: "isStopped s \<Longrightarrow> bStopped s \<Longrightarrow> run comparor evs s = s"
  by (induction evs) simp_all

lemma checkValues_single_a:
  "buf_a s = [a] \<Longrightarrow> buf_b s = b # bs \<Longrightarrow>
   checkValues comparor s = compare_pair comparor a b (s\<lparr>buf_a := [], buf_b := bs\<rparr>)"
  by (simp add: checkValues_Cons)

lemma checkValues_single_b:
  "buf_a s = a # as \<Longrightarrow> buf_b s = [b] \<Longrightarrow>
   checkValues comparor s = compare_pair comparor a b (s\<lparr>buf_a := as, buf_b := []\<rparr>)"
  by (simp add: checkValues_Cons)

lemma seq_next_reachable:
  "buf_a s = [] \<or> buf_b s = [] \<Longrightarrow>
   seq_next comparor v s =
     (if oneComplete s \<and> buf_b s = [] then emit False s
      else case buf_b s of
             [] \<Rightarrow> s\<lparr>buf_a := buf_a s @ [v]\<rparr>
           | b # bs \<Rightarrow> compare_pair comparor v b (s\<lparr>buf_a := [], buf_b := bs\<rparr>))"
  by (auto simp: seq_next_def checkValues_single_a split: list.splits)

lemma nextB_reachable:
  "buf_a s = [] \<or> buf_b s = [] \<Longrightarrow>
   nextB comparor v s =
     (if oneComplete s \<and> buf_a s = [] then emit False s
      else case buf_a s of
             [] \<Rightarrow> s\<lparr>buf_b := buf_b s @ [v]\<rparr>
           | a # as \<Rightarrow> compare_pair comparor a v (s\<lparr>buf_a := as, buf_b := []\<rparr>))"
  by (auto simp: nextB_def checkValues_single_b split: list.splits)

lemma emit_stopped [simp]: "dStopped s \<Longrightarrow> emit v s = s"
  by (simp add: emit_def destination_next_def destination_complete_def)

lemma destination_error_stopped [simp]: "dStopped s \<Longrightarrow> destination_error e s = s"
  by (simp add: destination_error_def)

lemma run_append: "run comparor (es @ fs) s = run comparor fs (run comparor es s)"
  by (induction es arbitrary: s) simp_all

lemma run_preserves:
  assumes "\<And>ev s. P s \<Longrightarrow> P (step comparor ev s)" and "P s"
  shows "P (run comparor es s)"
  using assms(2) by (induction es arbitrary: s) (simp_all add: assms(1))

lemma checkValues_preserves:
  assumes "\<And>a b as bs s. P s \<Longrightarrow> P (compare_pair comparor a b (s\<lparr>buf_a := as, buf_b := bs\<rparr>))"
    and "P s"
  shows "P (checkValues comparor s)"
  using assms
proof (induction comparor s rule: checkValues.induct)
  case (1 comparor s)
  show ?case
  proof (cases "buf_a s")
    case Nil
    with "1.prems"(2) show ?thesis by simp
  next
    case A: (Cons a as)
    show ?thesis
    proof (cases "buf_b s")
      case Nil
      with "1.prems"(2) show ?thesis by simp
    next
      case B: (Cons b bs)
      have body: "P (compare_pair comparor a b (s\<lparr>buf_a := as, buf_b := bs\<rparr>))"
        by (rule "1.prems"(1) [OF "1.prems"(2)])
      have "P (checkValues comparor (compare_pair comparor a b (s\<lparr>buf_a := as, buf_b := bs\<rparr>)))"
        by (rule "1.IH" [OF A B "1.prems"(1) body])
      then show ?thesis
        by (simp add: checkValues_Cons [OF A B])
    qed
  qed
qed

section \<open>The shape of the output\<close>

lemma out_shape_emit: "out_shape s \<Longrightarrow> out_shape (emit v s)"
  by (cases "dStopped s") (simp_all add: out_shape_def)

lemma out_shape_destination_error: "out_shape s \<Longrightarrow> out_shape (destination_error e s)"
  by (cases "dStopped s") (simp_all add: out_shape_def)

lemma out_shape_compare_pair:
  "out_shape s \<Longrightarrow> out_shape (compare_pair comparor a b (s\<lparr>buf_a := as, buf_b := bs\<rparr>))"
proof -
  assume "out_shape s"
  then have "out_shape (s\<lparr>buf_a := as, buf_b := bs, calls := cs\<rparr>)" for cs
    by (simp add: out_shape_def)
  then show ?thesis
    by (simp add: compare_pair_areEqual out_shape_emit out_shape_destination_error
          split: sum.splits)
qed

lemma out_shape_checkValues: "out_shape s \<Longrightarrow> out_shape (checkValues comparor s)"
  by (rule checkValues_preserves) (rule out_shape_compare_pair)

lemma out_shape_upd:
  "out_shape s \<Longrightarrow> \<not> dStopped s \<Longrightarrow> out_shape (s\<lparr>isStopped := True\<rparr>)"
  "out_shape s \<Longrightarrow> \<not> dStopped s \<Longrightarrow> out_shape (s\<lparr>bStopped := True\<rparr>)"
  "out_shape s \<Longrightarrow> out_shape (s\<lparr>oneComplete := c\<rparr>)"
  "out_shape s \<Longrightarrow> out_shape (s\<lparr>buf_a := as\<rparr>)"
  "out_shape s \<Longrightarrow> out_shape (s\<lparr>buf_b := bs\<rparr>)"
  by (simp_all add: out_shape_def)

lemma out_shape_stoppedD: "out_shape s \<Longrightarrow> dStopped s \<Longrightarrow> isStopped s \<and> bStopped s"
  by (simp add: out_shape_def)

lemma out_shape_step: "out_shape s \<Longrightarrow> out_shape (step comparor ev s)"
proof (cases "dStopped s")
  case True
  assume "out_shape s"
  with True show ?thesis by (simp add: out_shape_stoppedD)
next
  case False
  assume S: "out_shape s"
  show ?thesis
  proof (cases ev)
    case (A_next v)
    with S False show ?thesis
      by (simp add: subscriber_next_def seq_next_def out_shape_emit out_shape_checkValues out_shape_upd)
  next
    case (A_error e)
    with S False show ?thesis
      by (simp add: subscriber_error_def out_shape_def unsubscribe_def)
  next
    case A_complete
    with S False show ?thesis
      by (simp add: subscriber_complete_def seq_complete_def out_shape_emit out_shape_upd)
  next
    case (B_next v)
    with S False show ?thesis
      by (simp add: compareTo_next_def nextB_def out_shape_emit out_shape_checkValues out_shape_upd)
  next
    case (B_error e)
    with S False show ?thesis
      by (simp add: compareTo_error_def subscriber_error_def out_shape_def unsubscribe_def)
  next
    case B_complete
    with S False show ?thesis
      by (simp add: compareTo_complete_def seq_complete_def out_shape_emit out_shape_upd)
  qed
qed

lemma out_shape_init: "out_shape init_state"
  by (simp add: out_shape_def init_state_def)

lemma out_shape_run: "out_shape (run comparor es init_state)"
  by (rule run_preserves [OF out_shape_step out_shape_init])

section \<open>The buffers between notifications\<close>

lemma one_empty_step:
  "buf_a s = [] \<or> buf_b s = [] \<Longrightarrow>
   buf_a (step comparor ev s) = [] \<or> buf_b (step comparor ev s) = []"
proof (cases ev)
  case (A_next v)
  assume "buf_a s = [] \<or> buf_b s = []"
  with A_next checkValues_drains [of comparor "s\<lparr>buf_a := buf_a s @ [v]\<rparr>"] show ?thesis
    by (simp add: subscriber_next_def seq_next_def)
next
  case (B_next v)
  assume "buf_a s = [] \<or> buf_b s = []"
  with B_next checkValues_drains [of comparor "s\<lparr>buf_b := buf_b s @ [v]\<rparr>"] show ?thesis
    by (simp add: compareTo_next_def nextB_def)
qed (simp_all add: subscriber_error_def subscriber_complete_def compareTo_error_def
       compareTo_complete_def seq_complete_def)

text \<open>
  Claim C10. After every notification has been handled, whatever the schedule, at least
  one of the two buffers of the coordinator is empty.
\<close>

theorem buffers_never_both_nonempty:
  "buf_a (run comparor es init_state) = [] \<or> buf_b (run comparor es init_state) = []"
  by (rule run_preserves [where P = "\<lambda>s. buf_a s = [] \<or> buf_b s = []"])
     (simp_all add: one_empty_step init_state_def)


section \<open>The filter operator: correctness\<close>

lemma passing_filter_zip:
  "passing P n S = map fst (filter (\<lambda>(x, i). P x i = Inr True) (zip S [n..<n + length S]))"
proof (induction S arbitrary: n)
  case Nil
  show ?case by simp
next
  case (Cons x xs)
  have "[n..<n + length (x # xs)] = n # [Suc n..<Suc n + length xs]"
    by (subst upt_rec) simp
  then show ?case
    by (simp add: Cons.IH)
qed

lemma filter_run_stopped [simp]: "fStopped s \<Longrightarrow> filter_run P es s = s"
proof (induction es)
  case Nil
  show ?case by simp
next
  case (Cons ev es)
  then show ?case by (cases ev) simp_all
qed

lemma filter_run_append: "filter_run P (es @ fs) s = filter_run P fs (filter_run P es s)"
  by (induction es arbitrary: s) simp_all

lemma filter_run_values:
  "\<not> fStopped s \<Longrightarrow> \<not> fdStopped s \<Longrightarrow>
   \<forall>i<length S. \<exists>r. P (S ! i) (count s + i) = Inr r \<Longrightarrow>
   filter_run P (map Src_next S) s =
     s\<lparr>count := count s + length S, fout := fout s @ map Next (passing P (count s) S)\<rparr>"
proof (induction S arbitrary: s)
  case Nil
  show ?case by simp
next
  case (Cons x xs)
  from Cons.prems(3) obtain r where r: "P x (count s) = Inr r"
    by fastforce
  define s' where "s' = filter_next P x s"
  have s': "s' = s\<lparr>count := Suc (count s), fout := fout s @ (if r then [Next x] else [])\<rparr>"
    using Cons.prems(2) r by (simp add: s'_def filter_next_def fdest_next_def)
  have tl: "\<forall>i<length xs. \<exists>r. P (xs ! i) (count s' + i) = Inr r"
  proof (intro allI impI)
    fix i assume "i < length xs"
    then have "Suc i < length (x # xs)"
      by simp
    with Cons.prems(3) have "\<exists>r. P ((x # xs) ! Suc i) (count s + Suc i) = Inr r"
      by blast
    then show "\<exists>r. P (xs ! i) (count s' + i) = Inr r"
      by (simp add: s')
  qed
  have "filter_run P (map Src_next xs) s' =
          s'\<lparr>count := count s' + length xs, fout := fout s' @ map Next (passing P (count s') xs)\<rparr>"
    using Cons.prems(1,2) by (intro Cons.IH tl) (simp_all add: s')
  then show ?case
    using Cons.prems(1) r by (simp add: s'_def [symmetric]) (simp add: s')
qed

text \<open>
  Claim C7. For every finite sequence \<open>S\<close> of values and every predicate \<open>P\<close> that
  returns, the values the filter operator forwards are exactly the elements of \<open>S\<close> on
  which \<open>P\<close> holds, in their original order, \<open>P\<close> being called with the element and its
  zero-based position among all the values the source has pushed; the counter has then
  counted every element of \<open>S\<close>, passed or dropped.
\<close>

theorem filter_correct:
  "fout (filter_run (\<lambda>x i. Inr (P x i)) (map Src_next S) filter_init) =
     map Next (map fst (filter (\<lambda>(x, i). P x i) (zip S [0..<length S]))) \<and>
   count (filter_run (\<lambda>x i. Inr (P x i)) (map Src_next S) filter_init) = length S"
  by (simp add: filter_run_values filter_init_def passing_filter_zip)

text \<open>
  Claim C8. If the predicate returns on the first \<open>k - 1\<close> values \<open>pre\<close> and raises \<open>err\<close> on
  the \<open>k\<close>-th value \<open>x\<close>, the terminal observer receives the passing elements of \<open>pre\<close>
  followed by the error \<open>err\<close> and nothing else, whatever the source pushes afterwards
  (\<open>rest\<close>), and the counter stays at \<open>k\<close>: the predicate is not called again.
\<close>

theorem filter_predicate_raises:
  assumes "\<forall>i<length pre. \<exists>r. P (pre ! i) i = Inr r"
    and "P x (length pre) = Inl err"
  shows "fout (filter_run P (map Src_next pre @ Src_next x # rest) filter_init) =
           map Next (map fst (filter (\<lambda>(y, i). P y i = Inr True) (zip pre [0..<length pre])))
             @ [Error err] \<and>
         count (filter_run P (map Src_next pre @ Src_next x # rest) filter_init) =
           Suc (length pre)"
proof -
  define s where "s = filter_run P (map Src_next pre) filter_init"
  have s: "s = filter_init\<lparr>count := length pre, fout := map Next (passing P 0 pre)\<rparr>"
    using assms(1) by (simp add: s_def filter_run_values filter_init_def)
  define s' where "s' = filter_step P (Src_next x) s"
  have s': "s' = \<lparr>count = Suc (length pre), fStopped = True, fdStopped = True,
                  fout = map Next (passing P 0 pre) @ [Error err]\<rparr>"
    using assms(2) by (simp add: s'_def s filter_init_def filter_next_def fdest_error_def)
  have "filter_run P (map Src_next pre @ Src_next x # rest) filter_init = filter_run P rest s'"
    by (simp only: filter_run_append filter_run.simps s_def s'_def)
  also have "\<dots> = s'"
    by (rule filter_run_stopped) (simp add: s')
  finally show ?thesis
    by (simp add: s' passing_filter_zip)
qed

theorem filter_predicate_raises_witness:
  "fout (filter_run (\<lambda>x i. if x = 0 then Inl ''boom'' else Inr (even x))
           (map Src_next [2, 3, 4 :: nat] @ Src_next 0 # [Src_next 6, Src_complete]) filter_init) =
     [Next 2, Next 4, Error ''boom''] \<and>
   count (filter_run (\<lambda>x i. if x = 0 then Inl ''boom'' else Inr (even x))
           (map Src_next [2, 3, 4 :: nat] @ Src_next 0 # [Src_next 6, Src_complete]) filter_init) = 4"
proof -
  let ?P = "\<lambda>(x::nat) (i::nat). if x = 0 then Inl ''boom'' else Inr (even x)"
  have h1: "\<forall>i<length [2, 3, 4 :: nat]. \<exists>r. ?P ([2, 3, 4] ! i) i = Inr r"
    by (auto simp: All_less_Suc numeral_3_eq_3)
  have h2: "?P 0 (length [2, 3, 4 :: nat]) = Inl ''boom''"
    by simp
  have r: "map Next (map fst (filter (\<lambda>(y, i). ?P y i = Inr True)
             (zip [2, 3, 4 :: nat] [0..<length [2, 3, 4 :: nat]]))) @ [Error ''boom''] =
           [Next 2, Next 4, Error ''boom'']"
    by (simp add: upt_conv_Cons)
  have n: "Suc (length [2, 3, 4 :: nat]) = 4"
    by simp
  show ?thesis
    using filter_predicate_raises
      [of "[2, 3, 4]" ?P 0 "''boom''" "[Src_next 6, Src_complete]", OF h1 h2]
    unfolding r n .
qed

section \<open>The handlers, case by case\<close>

lemma one_empty_run:
  "buf_a (run comparor es init_state) = [] \<or> buf_b (run comparor es init_state) = []"
  by (rule run_preserves [where P = "\<lambda>s. buf_a s = [] \<or> buf_b s = []"])
     (simp_all add: one_empty_step init_state_def)

lemma run_snoc: "run comparor (es @ [ev]) s = step comparor ev (run comparor es s)"
  by (simp add: run_append)

lemma emit_active:
  "\<not> dStopped s \<Longrightarrow>
   emit v s = s\<lparr>isStopped := True, bStopped := True, dStopped := True,
                out := out s @ [Next v, Complete]\<rparr>"
  by (simp add: emit_def destination_next_def destination_complete_def unsubscribe_def)

lemma destination_error_active:
  "\<not> dStopped s \<Longrightarrow>
   destination_error e s = s\<lparr>isStopped := True, bStopped := True, dStopped := True,
                              out := out s @ [Error e]\<rparr>"
  by (simp add: destination_error_def unsubscribe_def)

lemma A_next_stopped: "isStopped s \<Longrightarrow> step comparor (A_next v) s = s"
  by (simp add: subscriber_next_def)

lemma B_next_stopped: "bStopped s \<Longrightarrow> step comparor (B_next v) s = s"
  by (simp add: compareTo_next_def)

lemma A_next_late:
  "\<not> isStopped s \<Longrightarrow> \<not> dStopped s \<Longrightarrow> oneComplete s \<Longrightarrow> buf_b s = [] \<Longrightarrow>
   step comparor (A_next v) s =
     s\<lparr>isStopped := True, bStopped := True, dStopped := True,
       out := out s @ [Next False, Complete]\<rparr>"
  by (simp add: subscriber_next_def seq_next_def emit_active)

lemma B_next_late:
  "\<not> bStopped s \<Longrightarrow> \<not> dStopped s \<Longrightarrow> oneComplete s \<Longrightarrow> buf_a s = [] \<Longrightarrow>
   step comparor (B_next v) s =
     s\<lparr>isStopped := True, bStopped := True, dStopped := True,
       out := out s @ [Next False, Complete]\<rparr>"
  by (simp add: compareTo_next_def nextB_def emit_active)

lemma A_next_buffer:
  "\<not> isStopped s \<Longrightarrow> \<not> oneComplete s \<Longrightarrow> buf_b s = [] \<Longrightarrow>
   step comparor (A_next v) s = s\<lparr>buf_a := buf_a s @ [v]\<rparr>"
  by (simp add: subscriber_next_def seq_next_def)

lemma B_next_buffer:
  "\<not> bStopped s \<Longrightarrow> \<not> oneComplete s \<Longrightarrow> buf_a s = [] \<Longrightarrow>
   step comparor (B_next v) s = s\<lparr>buf_b := buf_b s @ [v]\<rparr>"
  by (simp add: compareTo_next_def nextB_def)

lemma compare_pair_active:
  "\<not> dStopped s \<Longrightarrow>
   compare_pair comparor a b s =
     (case areEqual comparor a b of
        Inl e \<Rightarrow> s\<lparr>calls := calls s @ [(a, b)], isStopped := True, bStopped := True,
                   dStopped := True, out := out s @ [Error e]\<rparr>
      | Inr eq \<Rightarrow>
          if eq then s\<lparr>calls := calls s @ [(a, b)]\<rparr>
          else s\<lparr>calls := calls s @ [(a, b)], isStopped := True, bStopped := True,
                 dStopped := True, out := out s @ [Next False, Complete]\<rparr>)"
  by (simp add: compare_pair_areEqual emit_active destination_error_active split: sum.splits)

lemma A_next_pair:
  "\<not> isStopped s \<Longrightarrow> \<not> dStopped s \<Longrightarrow> buf_a s = [] \<Longrightarrow> buf_b s = b # bs \<Longrightarrow>
   step comparor (A_next v) s =
     (case areEqual comparor v b of
        Inl e \<Rightarrow> s\<lparr>buf_b := bs, calls := calls s @ [(v, b)], isStopped := True,
                   bStopped := True, dStopped := True, out := out s @ [Error e]\<rparr>
      | Inr eq \<Rightarrow>
          if eq then s\<lparr>buf_b := bs, calls := calls s @ [(v, b)]\<rparr>
          else s\<lparr>buf_b := bs, calls := calls s @ [(v, b)], isStopped := True,
                 bStopped := True, dStopped := True, out := out s @ [Next False, Complete]\<rparr>)"
  by (simp add: subscriber_next_def seq_next_def checkValues_single_a compare_pair_active
        split: sum.splits)

lemma B_next_pair:
  "\<not> bStopped s \<Longrightarrow> \<not> dStopped s \<Longrightarrow> buf_b s = [] \<Longrightarrow> buf_a s = a # as \<Longrightarrow>
   step comparor (B_next v) s =
     (case areEqual comparor a v of
        Inl e \<Rightarrow> s\<lparr>buf_a := as, calls := calls s @ [(a, v)], isStopped := True,
                   bStopped := True, dStopped := True, out := out s @ [Error e]\<rparr>
      | Inr eq \<Rightarrow>
          if eq then s\<lparr>buf_a := as, calls := calls s @ [(a, v)]\<rparr>
          else s\<lparr>buf_a := as, calls := calls s @ [(a, v)], isStopped := True,
                 bStopped := True, dStopped := True, out := out s @ [Next False, Complete]\<rparr>)"
  by (simp add: compareTo_next_def nextB_def checkValues_single_b compare_pair_active
        split: sum.splits)

lemma A_error_stopped: "isStopped s \<Longrightarrow> step comparor (A_error e) s = s"
  by (simp add: subscriber_error_def)

lemma A_error_active:
  "\<not> isStopped s \<Longrightarrow> \<not> dStopped s \<Longrightarrow>
   step comparor (A_error e) s =
     s\<lparr>isStopped := True, bStopped := True, dStopped := True, out := out s @ [Error e]\<rparr>"
  by (simp add: subscriber_error_def destination_error_active unsubscribe_def)

lemma B_error_stopped: "bStopped s \<Longrightarrow> step comparor (B_error e) s = s"
  by (simp add: compareTo_error_def)

lemma B_error_swallowed:
  "\<not> bStopped s \<Longrightarrow> isStopped s \<Longrightarrow> step comparor (B_error e) s = s\<lparr>bStopped := True\<rparr>"
  by (simp add: compareTo_error_def subscriber_error_def)

lemma B_error_active:
  "\<not> bStopped s \<Longrightarrow> \<not> isStopped s \<Longrightarrow> \<not> dStopped s \<Longrightarrow>
   step comparor (B_error e) s =
     s\<lparr>isStopped := True, bStopped := True, dStopped := True, out := out s @ [Error e]\<rparr>"
  by (simp add: compareTo_error_def subscriber_error_def destination_error_active unsubscribe_def)

lemma A_complete_stopped: "isStopped s \<Longrightarrow> step comparor A_complete s = s"
  by (simp add: subscriber_complete_def)

lemma A_complete_first:
  "\<not> isStopped s \<Longrightarrow> \<not> oneComplete s \<Longrightarrow>
   step comparor A_complete s = s\<lparr>isStopped := True, oneComplete := True\<rparr>"
  by (simp add: subscriber_complete_def seq_complete_def)

lemma A_complete_second:
  "\<not> isStopped s \<Longrightarrow> \<not> dStopped s \<Longrightarrow> oneComplete s \<Longrightarrow>
   step comparor A_complete s =
     s\<lparr>isStopped := True, bStopped := True, dStopped := True,
       out := out s @ [Next (buf_a s = [] \<and> buf_b s = []), Complete]\<rparr>"
  by (simp add: subscriber_complete_def seq_complete_def emit_active)

lemma B_complete_stopped: "bStopped s \<Longrightarrow> step comparor B_complete s = s"
  by (simp add: compareTo_complete_def)

lemma B_complete_first:
  "\<not> bStopped s \<Longrightarrow> \<not> oneComplete s \<Longrightarrow>
   step comparor B_complete s = s\<lparr>bStopped := True, oneComplete := True\<rparr>"
  by (simp add: compareTo_complete_def seq_complete_def)

lemma B_complete_second:
  "\<not> bStopped s \<Longrightarrow> \<not> dStopped s \<Longrightarrow> oneComplete s \<Longrightarrow>
   step comparor B_complete s =
     s\<lparr>isStopped := True, bStopped := True, dStopped := True,
       out := out s @ [Next (buf_a s = [] \<and> buf_b s = []), Complete]\<rparr>"
  by (simp add: compareTo_complete_def seq_complete_def emit_active)

declare step.simps [simp del]

lemma A_next_flags:
  assumes "buf_a s = [] \<or> buf_b s = []" and "\<not> dStopped s"
  shows "oneComplete (step comparor (A_next v) s) = oneComplete s \<and>
         (isStopped (step comparor (A_next v) s) = isStopped s \<and>
          bStopped (step comparor (A_next v) s) = bStopped s \<and>
          dStopped (step comparor (A_next v) s) = dStopped s \<or>
          isStopped (step comparor (A_next v) s) \<and> bStopped (step comparor (A_next v) s) \<and>
          dStopped (step comparor (A_next v) s))"
proof (cases "isStopped s")
  case True
  then show ?thesis by (simp add: A_next_stopped)
next
  case active: False
  show ?thesis
  proof (cases "buf_b s")
    case Nil
    then show ?thesis
      using active assms(2)
      by (cases "oneComplete s") (simp_all add: A_next_late A_next_buffer)
  next
    case (Cons b bs)
    with assms(1) have "buf_a s = []" by simp
    then show ?thesis
      using active assms(2) Cons
      by (simp add: A_next_pair split: sum.splits)
  qed
qed

lemma B_next_flags:
  assumes "buf_a s = [] \<or> buf_b s = []" and "\<not> dStopped s"
  shows "oneComplete (step comparor (B_next v) s) = oneComplete s \<and>
         (isStopped (step comparor (B_next v) s) = isStopped s \<and>
          bStopped (step comparor (B_next v) s) = bStopped s \<and>
          dStopped (step comparor (B_next v) s) = dStopped s \<or>
          isStopped (step comparor (B_next v) s) \<and> bStopped (step comparor (B_next v) s) \<and>
          dStopped (step comparor (B_next v) s))"
proof (cases "bStopped s")
  case True
  then show ?thesis by (simp add: B_next_stopped)
next
  case active: False
  show ?thesis
  proof (cases "buf_a s")
    case Nil
    then show ?thesis
      using active assms(2)
      by (cases "oneComplete s") (simp_all add: B_next_late B_next_buffer)
  next
    case (Cons a as)
    with assms(1) have "buf_b s = []" by simp
    then show ?thesis
      using active assms(2) Cons
      by (simp add: B_next_pair split: sum.splits)
  qed
qed

lemma flags_inv_same:
  assumes "flags_inv es s"
    and "buf_a s' = [] \<or> buf_b s' = []"
    and "oneComplete s' = oneComplete s" "isStopped s' = isStopped s"
    and "bStopped s' = bStopped s" "dStopped s' = dStopped s"
    and "ev \<noteq> A_complete \<or> isStopped s" "ev \<noteq> B_complete \<or> bStopped s"
  shows "flags_inv (es @ [ev]) s'"
proof -
  have m: "A_complete \<in> set (es @ [ev]) \<longleftrightarrow> A_complete \<in> set es \<or> ev = A_complete"
    "B_complete \<in> set (es @ [ev]) \<longleftrightarrow> B_complete \<in> set es \<or> ev = B_complete"
    by auto
  show ?thesis
    using assms unfolding flags_inv_def m by blast
qed

lemma flags_inv_all_stopped:
  assumes "flags_inv es s"
    and "buf_a s' = [] \<or> buf_b s' = []"
    and "oneComplete s \<longrightarrow> oneComplete s'" "isStopped s'" "bStopped s'"
  shows "flags_inv (es @ [ev]) s'"
  using assms unfolding flags_inv_def by blast

lemma flags_inv_first_A:
  assumes "flags_inv es s" and "\<not> oneComplete s"
    and "buf_a s' = [] \<or> buf_b s' = []" "dStopped s' = dStopped s"
    and "bStopped s' = bStopped s" "isStopped s'" "oneComplete s'"
  shows "flags_inv (es @ [A_complete]) s'"
proof -
  have m: "A_complete \<in> set (es @ [A_complete]) \<longleftrightarrow> True"
    "B_complete \<in> set (es @ [A_complete]) \<longleftrightarrow> B_complete \<in> set es"
    by auto
  show ?thesis
    using assms unfolding flags_inv_def m by blast
qed

lemma flags_inv_first_B:
  assumes "flags_inv es s" and "\<not> oneComplete s"
    and "buf_a s' = [] \<or> buf_b s' = []" "dStopped s' = dStopped s"
    and "isStopped s' = isStopped s" "bStopped s'" "oneComplete s'"
  shows "flags_inv (es @ [B_complete]) s'"
proof -
  have m: "B_complete \<in> set (es @ [B_complete]) \<longleftrightarrow> True"
    "A_complete \<in> set (es @ [B_complete]) \<longleftrightarrow> A_complete \<in> set es"
    by auto
  show ?thesis
    using assms unfolding flags_inv_def m by blast
qed

lemma flags_invD:
  assumes "flags_inv es s"
  shows "buf_a s = [] \<or> buf_b s = []"
    and "dStopped s \<Longrightarrow> isStopped s" and "dStopped s \<Longrightarrow> bStopped s"
    and "oneComplete s \<Longrightarrow> isStopped s \<or> bStopped s"
    and "isStopped s \<Longrightarrow> \<not> bStopped s \<Longrightarrow> oneComplete s"
    and "bStopped s \<Longrightarrow> \<not> isStopped s \<Longrightarrow> oneComplete s"
    and "isStopped s \<Longrightarrow> \<not> bStopped s \<Longrightarrow> A_complete \<in> set es"
    and "bStopped s \<Longrightarrow> \<not> isStopped s \<Longrightarrow> B_complete \<in> set es"
    and "A_complete \<in> set es \<Longrightarrow> isStopped s"
    and "B_complete \<in> set es \<Longrightarrow> bStopped s"
  using assms unfolding flags_inv_def by blast+

lemma flags_inv_step:
  assumes "flags_inv es s"
  shows "flags_inv (es @ [ev]) (step comparor ev s)"
proof -
  let ?s' = "step comparor ev s"
  have E: "buf_a s = [] \<or> buf_b s = []"
    by (rule flags_invD(1) [OF assms])
  have E': "buf_a ?s' = [] \<or> buf_b ?s' = []"
    by (rule one_empty_step [OF E])
  have unchanged: "flags_inv (es @ [ev]) ?s'"
    if "?s' = s" "ev \<noteq> A_complete \<or> isStopped s" "ev \<noteq> B_complete \<or> bStopped s"
    by (rule flags_inv_same [OF assms E' _ _ _ _ that(2) that(3)]) (simp_all add: that(1))
  have stopped: "flags_inv (es @ [ev]) ?s'"
    if "isStopped ?s'" "bStopped ?s'" "oneComplete s \<longrightarrow> oneComplete ?s'"
    by (rule flags_inv_all_stopped [OF assms E' that(3) that(1) that(2)])
  show ?thesis
  proof (cases "dStopped s")
    case True
    then have "isStopped s" "bStopped s"
      by (rule flags_invD(2,3) [OF assms])+
    then show ?thesis
      by (intro unchanged) simp_all
  next
    case False
    show ?thesis
    proof (cases ev)
      case (A_next v)
      from A_next_flags [OF E False, of comparor v]
      have one: "oneComplete ?s' = oneComplete s"
        and disj: "isStopped ?s' = isStopped s \<and> bStopped ?s' = bStopped s \<and>
                   dStopped ?s' = dStopped s \<or> isStopped ?s' \<and> bStopped ?s' \<and> dStopped ?s'"
        by (simp_all add: A_next)
      from disj show ?thesis
      proof
        assume "isStopped ?s' = isStopped s \<and> bStopped ?s' = bStopped s \<and>
                dStopped ?s' = dStopped s"
        then show ?thesis
          by (intro flags_inv_same [OF assms E' one]) (simp_all add: A_next)
      next
        assume "isStopped ?s' \<and> bStopped ?s' \<and> dStopped ?s'"
        then show ?thesis
          by (intro stopped) (simp_all add: one)
      qed
    next
      case (B_next v)
      from B_next_flags [OF E False, of comparor v]
      have one: "oneComplete ?s' = oneComplete s"
        and disj: "isStopped ?s' = isStopped s \<and> bStopped ?s' = bStopped s \<and>
                   dStopped ?s' = dStopped s \<or> isStopped ?s' \<and> bStopped ?s' \<and> dStopped ?s'"
        by (simp_all add: B_next)
      from disj show ?thesis
      proof
        assume "isStopped ?s' = isStopped s \<and> bStopped ?s' = bStopped s \<and>
                dStopped ?s' = dStopped s"
        then show ?thesis
          by (intro flags_inv_same [OF assms E' one]) (simp_all add: B_next)
      next
        assume "isStopped ?s' \<and> bStopped ?s' \<and> dStopped ?s'"
        then show ?thesis
          by (intro stopped) (simp_all add: one)
      qed
    next
      case (A_error e)
      show ?thesis
      proof (cases "isStopped s")
        case True
        then show ?thesis
          by (intro unchanged) (simp_all add: A_error A_error_stopped)
      next
        case False
        with \<open>\<not> dStopped s\<close> show ?thesis
          by (intro stopped) (simp_all add: A_error A_error_active)
      qed
    next
      case (B_error e)
      show ?thesis
      proof (cases "bStopped s")
        case True
        then show ?thesis
          by (intro unchanged) (simp_all add: B_error B_error_stopped)
      next
        case b: False
        show ?thesis
        proof (cases "isStopped s")
          case True
          with b show ?thesis
            by (intro stopped) (simp_all add: B_error B_error_swallowed)
        next
          case False
          with b \<open>\<not> dStopped s\<close> show ?thesis
            by (intro stopped) (simp_all add: B_error B_error_active)
        qed
      qed
    next
      case A_complete
      show ?thesis
      proof (cases "isStopped s")
        case True
        then show ?thesis
          by (intro unchanged) (simp_all add: A_complete A_complete_stopped)
      next
        case a: False
        show ?thesis
        proof (cases "oneComplete s")
          case True
          with a \<open>\<not> dStopped s\<close> show ?thesis
            by (intro stopped) (simp_all add: A_complete A_complete_second)
        next
          case False
          with a E show ?thesis
            unfolding A_complete
            by (intro flags_inv_first_A [OF assms]) (simp_all add: A_complete_first)
        qed
      qed
    next
      case B_complete
      show ?thesis
      proof (cases "bStopped s")
        case True
        then show ?thesis
          by (intro unchanged) (simp_all add: B_complete B_complete_stopped)
      next
        case b: False
        show ?thesis
        proof (cases "oneComplete s")
          case True
          with b \<open>\<not> dStopped s\<close> show ?thesis
            by (intro stopped) (simp_all add: B_complete B_complete_second)
        next
          case False
          with b E show ?thesis
            unfolding B_complete
            by (intro flags_inv_first_B [OF assms]) (simp_all add: B_complete_first)
        qed
      qed
    qed
  qed
qed

lemma flags_inv_run: "flags_inv es (run comparor es init_state)"
proof (induction es rule: rev_induct)
  case Nil
  show ?case by (simp add: flags_inv_def init_state_def)
next
  case (snoc ev es)
  then show ?case by (simp only: run_snoc flags_inv_step)
qed

section \<open>The result that is determined and the result that is delivered\<close>

lemma spec_drain_Nil_right [simp]:
  "spec_drain comparor pa [] aDone bDone = Collecting pa [] aDone bDone"
  by (cases pa) simp_all

lemma refines_step_Collecting:
  assumes R: "refines s (Collecting pa pb aDone bDone)"
  shows "refines (step comparor ev s) (spec_step comparor ev (Collecting pa pb aDone bDone))"
proof -
  from R have d: "\<not> dStopped s" and o: "out s = []" and A: "buf_a s = pa" and B: "buf_b s = pb"
    and E: "pa = [] \<or> pb = []" and a: "isStopped s = aDone" and b: "bStopped s = bDone"
    and one: "oneComplete s = (aDone \<or> bDone)" and nb: "\<not> (aDone \<and> bDone)"
    by simp_all
  show ?thesis
  proof (cases ev)
    case (A_next v)
    show ?thesis
    proof (cases aDone)
      case True
      with R a show ?thesis
        by (simp add: A_next A_next_stopped)
    next
      case na: False
      show ?thesis
      proof (cases pb)
        case Nil
        show ?thesis
        proof (cases bDone)
          case True
          with na Nil d o a B one show ?thesis
            by (simp add: A_next A_next_late)
        next
          case False
          with na Nil d o a b A B one show ?thesis
            by (simp add: A_next A_next_buffer)
        qed
      next
        case (Cons y ys)
        with E have pa: "pa = []" by simp
        from na Cons pa d o a b A B one nb show ?thesis
          by (simp add: A_next A_next_pair split: sum.splits)
      qed
    qed
  next
    case (B_next v)
    show ?thesis
    proof (cases bDone)
      case True
      with R b show ?thesis
        by (simp add: B_next B_next_stopped)
    next
      case nbd: False
      show ?thesis
      proof (cases pa)
        case Nil
        show ?thesis
        proof (cases aDone)
          case True
          with nbd Nil d o b A one show ?thesis
            by (simp add: B_next B_next_late)
        next
          case False
          with nbd Nil d o a b A B one show ?thesis
            by (simp add: B_next B_next_buffer)
        qed
      next
        case (Cons x xs)
        with E have pb: "pb = []" by simp
        from nbd Cons pb d o a b A B one nb show ?thesis
          by (simp add: B_next B_next_pair split: sum.splits)
      qed
    qed
  next
    case (A_error e)
    from R d o a b show ?thesis
      by (cases aDone) (simp_all add: A_error A_error_stopped A_error_active)
  next
    case (B_error e)
    from R d o a b show ?thesis
      by (cases bDone; cases aDone)
         (simp_all add: B_error B_error_stopped B_error_swallowed B_error_active)
  next
    case A_complete
    from R d o a b A B one nb show ?thesis
      by (cases aDone; cases bDone)
         (simp_all add: A_complete A_complete_stopped A_complete_first A_complete_second)
  next
    case B_complete
    from R d o a b A B one nb show ?thesis
      by (cases bDone; cases aDone)
         (simp_all add: B_complete B_complete_stopped B_complete_first B_complete_second)
  qed
qed

lemma refines_step: "refines s ph \<Longrightarrow> refines (step comparor ev s) (spec_step comparor ev ph)"
proof (cases ph)
  case (Collecting pa pb aDone bDone)
  assume "refines s ph"
  with Collecting show ?thesis
    by (simp only: refines_step_Collecting)
next
  case (Decided b)
  assume "refines s ph"
  with Decided show ?thesis by simp
next
  case (Failed e)
  assume "refines s ph"
  with Failed show ?thesis by simp
qed

lemma refines_run: "refines s ph \<Longrightarrow> refines (run comparor es s) (spec_run comparor es ph)"
  by (induction es arbitrary: s ph) (simp_all add: refines_step)

lemma refines_init: "refines init_state spec_init"
  by (simp add: init_state_def spec_init_def)

text \<open>
  Claim C5. For every comparor and every schedule of notifications from the two sources,
  the terminal observer of sequenceEqual has received nothing, or exactly one boolean
  followed by the completion, or exactly one error. Which of these is fixed by the
  specification's machine run on the same schedule: if it has determined the boolean
  \<open>b\<close>, the observer has received exactly \<open>b\<close> and then the completion; while it is
  still collecting, the observer has received nothing; after a failure the observer has
  received the error or nothing, and no value or completion. So a completion is delivered
  exactly when a boolean result was determined, after that one value and nothing else.
\<close>

theorem sequenceEqual_cardinality:
  "(out (run comparor es init_state) = [] \<or>
    (\<exists>b. out (run comparor es init_state) = [Next b, Complete]) \<or>
    (\<exists>e. out (run comparor es init_state) = [Error e])) \<and>
   (case spec_run comparor es spec_init of
      Decided b \<Rightarrow> out (run comparor es init_state) = [Next b, Complete]
    | Collecting pa pb aDone bDone \<Rightarrow> out (run comparor es init_state) = []
    | Failed e \<Rightarrow>
        out (run comparor es init_state) = [Error e] \<or> out (run comparor es init_state) = [])"
proof -
  have "refines (run comparor es init_state) (spec_run comparor es spec_init)"
    by (rule refines_run [OF refines_init])
  then show ?thesis
    by (cases "spec_run comparor es spec_init") auto
qed

theorem sequenceEqual_cardinality_witness:
  "out (run None [A_next (7::nat), B_next 5, A_next 9] (init_state :: (nat, unit) seq_state)) =
     [Next False, Complete] \<and>
   out (run None [A_next (7::nat), B_next 7, B_complete, A_complete]
          (init_state :: (nat, unit) seq_state)) = [Next True, Complete] \<and>
   out (run None [A_next (7::nat), B_next 7, B_complete] (init_state :: (nat, unit) seq_state)) = []"
proof -
  let ?c = "None :: (nat, unit) comparor"
  have 1: "spec_run ?c [A_next 7, B_next 5, A_next 9] spec_init = Decided False"
    by code_simp
  have 2: "spec_run ?c [A_next 7, B_next 7, B_complete, A_complete] spec_init = Decided True"
    by code_simp
  have 3: "spec_run ?c [A_next 7, B_next 7, B_complete] spec_init = Collecting [] [] False True"
    by code_simp
  from sequenceEqual_cardinality [of ?c "[A_next 7, B_next 5, A_next 9]"]
    sequenceEqual_cardinality [of ?c "[A_next 7, B_next 7, B_complete, A_complete]"]
    sequenceEqual_cardinality [of ?c "[A_next 7, B_next 7, B_complete]"]
  show ?thesis
    unfolding 1 2 3 by simp
qed

section \<open>Completion and late values\<close>

lemma out_empty_run:
  "\<not> dStopped (run comparor es init_state) \<Longrightarrow> out (run comparor es init_state) = []"
  using out_shape_run [of comparor es] by (simp add: out_shape_def)

text \<open>
  Claim C2. Let \<open>s\<close> be the state after any schedule \<open>es\<close>. If the secondary source has
  completed and the coordinator is still live, the completion of the primary source
  emits \<open>true\<close> exactly when both buffers are empty at that moment and \<open>false\<close>
  otherwise, then the completion, and stops everything (so the check is never made
  again); the same holds with the two sources exchanged. If the other source has not
  completed, a completion only records that one side is done: nothing is emitted and
  the buffers are untouched.
\<close>

theorem second_completion_decides:
  "(let s = run comparor es init_state in
      (B_complete \<in> set es \<and> \<not> isStopped s \<longrightarrow>
         step comparor A_complete s =
           s\<lparr>isStopped := True, bStopped := True, dStopped := True,
             out := [Next (buf_a s = [] \<and> buf_b s = []), Complete]\<rparr>) \<and>
      (A_complete \<in> set es \<and> \<not> bStopped s \<longrightarrow>
         step comparor B_complete s =
           s\<lparr>isStopped := True, bStopped := True, dStopped := True,
             out := [Next (buf_a s = [] \<and> buf_b s = []), Complete]\<rparr>) \<and>
      (B_complete \<notin> set es \<and> \<not> isStopped s \<longrightarrow>
         step comparor A_complete s = s\<lparr>isStopped := True, oneComplete := True\<rparr>) \<and>
      (A_complete \<notin> set es \<and> \<not> bStopped s \<longrightarrow>
         step comparor B_complete s = s\<lparr>bStopped := True, oneComplete := True\<rparr>))"
proof -
  define s where "s = run comparor es init_state"
  have inv: "flags_inv es s"
    unfolding s_def by (rule flags_inv_run)
  note D = flags_invD [OF inv]
  have empty: "out s = []" if "\<not> dStopped s"
    using that unfolding s_def by (rule out_empty_run)
  have 1: "step comparor A_complete s =
             s\<lparr>isStopped := True, bStopped := True, dStopped := True,
               out := [Next (buf_a s = [] \<and> buf_b s = []), Complete]\<rparr>"
    if "B_complete \<in> set es" "\<not> isStopped s"
  proof -
    from that D(10) have b: "bStopped s" by blast
    with that D(6) have one: "oneComplete s" by blast
    from that D(2) have d: "\<not> dStopped s" by blast
    show ?thesis
      using that(2) d one empty [OF d] by (simp add: A_complete_second)
  qed
  have 2: "step comparor B_complete s =
             s\<lparr>isStopped := True, bStopped := True, dStopped := True,
               out := [Next (buf_a s = [] \<and> buf_b s = []), Complete]\<rparr>"
    if "A_complete \<in> set es" "\<not> bStopped s"
  proof -
    from that D(9) have a: "isStopped s" by blast
    with that D(5) have one: "oneComplete s" by blast
    from that D(3) have d: "\<not> dStopped s" by blast
    show ?thesis
      using that(2) d one empty [OF d] by (simp add: B_complete_second)
  qed
  have 3: "step comparor A_complete s = s\<lparr>isStopped := True, oneComplete := True\<rparr>"
    if "B_complete \<notin> set es" "\<not> isStopped s"
  proof -
    from that D(4) D(8) have "\<not> oneComplete s" by blast
    with that(2) show ?thesis by (simp add: A_complete_first)
  qed
  have 4: "step comparor B_complete s = s\<lparr>bStopped := True, oneComplete := True\<rparr>"
    if "A_complete \<notin> set es" "\<not> bStopped s"
  proof -
    from that D(4) D(7) have "\<not> oneComplete s" by blast
    with that(2) show ?thesis by (simp add: B_complete_first)
  qed
  from 1 2 3 4 show ?thesis
    unfolding s_def [symmetric] Let_def by blast
qed

theorem second_completion_decides_witness:
  "out (step None A_complete
          (run None [A_next (7::nat), B_next 7, B_complete] (init_state :: (nat, unit) seq_state))) =
     [Next True, Complete] \<and>
   out (step None B_complete
          (run None [A_next (7::nat), A_complete] (init_state :: (nat, unit) seq_state))) =
     [Next False, Complete] \<and>
   step None A_complete (run None [] (init_state :: (nat, unit) seq_state)) =
     (run None [] init_state)\<lparr>isStopped := True, oneComplete := True\<rparr> \<and>
   step None B_complete (run None [] (init_state :: (nat, unit) seq_state)) =
     (run None [] init_state)\<lparr>bStopped := True, oneComplete := True\<rparr>"
proof -
  let ?i = "init_state :: (nat, unit) seq_state"
  let ?e1 = "[A_next (7::nat), B_next 7, B_complete] :: (nat, unit) event list"
  let ?e2 = "[A_next (7::nat), A_complete] :: (nat, unit) event list"
  let ?e3 = "[] :: (nat, unit) event list"
  have h1: "B_complete \<in> set ?e1 \<and> \<not> isStopped (run None ?e1 ?i)"
    by code_simp
  have b1: "(buf_a (run None ?e1 ?i) = [] \<and> buf_b (run None ?e1 ?i) = []) = True"
    by code_simp
  have h2: "A_complete \<in> set ?e2 \<and> \<not> bStopped (run None ?e2 ?i)"
    by code_simp
  have b2: "(buf_a (run None ?e2 ?i) = [] \<and> buf_b (run None ?e2 ?i) = []) = False"
    by code_simp
  have h3: "B_complete \<notin> set ?e3 \<and> \<not> isStopped (run None ?e3 ?i)"
    by code_simp
  have h4: "A_complete \<notin> set ?e3 \<and> \<not> bStopped (run None ?e3 ?i)"
    by code_simp
  from second_completion_decides [of None ?e1] h1
  have "step None A_complete (run None ?e1 ?i) =
          (run None ?e1 ?i)\<lparr>isStopped := True, bStopped := True, dStopped := True,
             out := [Next True, Complete]\<rparr>"
    unfolding Let_def b1 by blast
  then have 1: "out (step None A_complete (run None ?e1 ?i)) = [Next True, Complete]"
    by simp
  from second_completion_decides [of None ?e2] h2
  have "step None B_complete (run None ?e2 ?i) =
          (run None ?e2 ?i)\<lparr>isStopped := True, bStopped := True, dStopped := True,
             out := [Next False, Complete]\<rparr>"
    unfolding Let_def b2 by blast
  then have 2: "out (step None B_complete (run None ?e2 ?i)) = [Next False, Complete]"
    by simp
  from second_completion_decides [of None ?e3] h3 h4
  have 3: "step None A_complete (run None ?e3 ?i) =
             (run None ?e3 ?i)\<lparr>isStopped := True, oneComplete := True\<rparr>"
    and 4: "step None B_complete (run None ?e3 ?i) =
             (run None ?e3 ?i)\<lparr>bStopped := True, oneComplete := True\<rparr>"
    unfolding Let_def by blast+
  from 1 2 3 4 show ?thesis
    by blast
qed

text \<open>
  Claim C4. Let \<open>s\<close> be the state after any schedule \<open>es\<close>. If the secondary source has
  completed, the coordinator is still live and the secondary buffer is empty, a value
  from the primary source makes the coordinator emit \<open>false\<close> and the completion and
  stop, without buffering the value; and symmetrically for a value from the secondary
  source after the primary source has completed with the primary buffer empty.
\<close>

theorem value_after_other_side_completed:
  "(let s = run comparor es init_state in
      (B_complete \<in> set es \<and> \<not> isStopped s \<and> buf_b s = [] \<longrightarrow>
         step comparor (A_next v) s =
           s\<lparr>isStopped := True, bStopped := True, dStopped := True,
             out := [Next False, Complete]\<rparr>) \<and>
      (A_complete \<in> set es \<and> \<not> bStopped s \<and> buf_a s = [] \<longrightarrow>
         step comparor (B_next v) s =
           s\<lparr>isStopped := True, bStopped := True, dStopped := True,
             out := [Next False, Complete]\<rparr>))"
proof -
  define s where "s = run comparor es init_state"
  have inv: "flags_inv es s"
    unfolding s_def by (rule flags_inv_run)
  note D = flags_invD [OF inv]
  have empty: "out s = []" if "\<not> dStopped s"
    using that unfolding s_def by (rule out_empty_run)
  have 1: "step comparor (A_next v) s =
             s\<lparr>isStopped := True, bStopped := True, dStopped := True,
               out := [Next False, Complete]\<rparr>"
    if "B_complete \<in> set es" "\<not> isStopped s" "buf_b s = []"
  proof -
    from that D(10) have b: "bStopped s" by blast
    with that D(6) have one: "oneComplete s" by blast
    from that D(2) have d: "\<not> dStopped s" by blast
    show ?thesis
      using that(2,3) d one empty [OF d] by (simp add: A_next_late)
  qed
  have 2: "step comparor (B_next v) s =
             s\<lparr>isStopped := True, bStopped := True, dStopped := True,
               out := [Next False, Complete]\<rparr>"
    if "A_complete \<in> set es" "\<not> bStopped s" "buf_a s = []"
  proof -
    from that D(9) have a: "isStopped s" by blast
    with that D(5) have one: "oneComplete s" by blast
    from that D(3) have d: "\<not> dStopped s" by blast
    show ?thesis
      using that(2,3) d one empty [OF d] by (simp add: B_next_late)
  qed
  from 1 2 show ?thesis
    unfolding s_def [symmetric] Let_def by blast
qed

theorem value_after_other_side_completed_witness:
  "out (step None (A_next 3)
          (run None [A_next (7::nat), B_next 7, B_complete] (init_state :: (nat, unit) seq_state))) =
     [Next False, Complete] \<and>
   buf_a (step None (A_next 3)
          (run None [A_next (7::nat), B_next 7, B_complete] (init_state :: (nat, unit) seq_state))) =
     [] \<and>
   out (step None (B_next 3)
          (run None [A_complete] (init_state :: (nat, unit) seq_state))) =
     [Next False, Complete]"
proof -
  let ?i = "init_state :: (nat, unit) seq_state"
  let ?e1 = "[A_next (7::nat), B_next 7, B_complete] :: (nat, unit) event list"
  let ?e2 = "[A_complete] :: (nat, unit) event list"
  have h1: "B_complete \<in> set ?e1 \<and> \<not> isStopped (run None ?e1 ?i) \<and> buf_b (run None ?e1 ?i) = []"
    by code_simp
  have a1: "buf_a (run None ?e1 ?i) = []"
    by code_simp
  have h2: "A_complete \<in> set ?e2 \<and> \<not> bStopped (run None ?e2 ?i) \<and> buf_a (run None ?e2 ?i) = []"
    by code_simp
  from value_after_other_side_completed [of None ?e1 3] h1
  have "step None (A_next 3) (run None ?e1 ?i) =
          (run None ?e1 ?i)\<lparr>isStopped := True, bStopped := True, dStopped := True,
             out := [Next False, Complete]\<rparr>"
    unfolding Let_def by blast
  then have 1: "out (step None (A_next 3) (run None ?e1 ?i)) = [Next False, Complete]"
    and 2: "buf_a (step None (A_next 3) (run None ?e1 ?i)) = []"
    by (simp_all add: a1 del: run.simps)
  from value_after_other_side_completed [of None ?e2 3] h2
  have "step None (B_next 3) (run None ?e2 ?i) =
          (run None ?e2 ?i)\<lparr>isStopped := True, bStopped := True, dStopped := True,
             out := [Next False, Complete]\<rparr>"
    unfolding Let_def by blast
  then have 3: "out (step None (B_next 3) (run None ?e2 ?i)) = [Next False, Complete]"
    by simp
  from 1 2 3 show ?thesis
    by blast
qed

section \<open>Errors of the sources\<close>

text \<open>
  An error of either source reaches the terminal observer while the coordinator is live
  (\<open>A_error_active\<close>, \<open>B_error_active\<close>). After the primary source has completed, the
  coordinator's own \<^verbatim>\<open>isStopped\<close> is set although no result has been delivered;
  \<^verbatim>\<open>nextB\<close> and \<^verbatim>\<open>_complete\<close> are called on it directly and still work, but
  \<^verbatim>\<open>this.parent.error(err)\<close> goes through the guarded \<^verbatim>\<open>error\<close> and is dropped
  (\<open>B_error_swallowed\<close>).

  Claim C9. The claim says that an error of either source is forwarded to the downstream
  observer. On the schedule where the primary source completes and the secondary source
  then raises \<open>e\<close>, the terminal observer has received nothing, the destination is
  still active, and nothing that follows (\<open>es\<close>) changes that.
\<close>

theorem secondary_error_after_primary_completion_is_lost:
  "out (run comparor (A_complete # B_error e # es) init_state) = [] \<and>
   \<not> dStopped (run comparor (A_complete # B_error e # es) init_state)"
proof -
  have "run comparor [A_complete, B_error e] init_state =
          init_state\<lparr>isStopped := True, oneComplete := True, bStopped := True\<rparr>"
    by (simp add: init_state_def A_complete_first B_error_swallowed)
  then have "run comparor (A_complete # B_error e # es) init_state =
          init_state\<lparr>isStopped := True, oneComplete := True, bStopped := True\<rparr>"
    using run_append [of comparor "[A_complete, B_error e]" es init_state] by simp
  then show ?thesis
    by (simp add: init_state_def)
qed


section \<open>A comparor that raises\<close>

lemma checkValues_after_stop:
  assumes "dStopped (s :: ('a, 'e) seq_state)"
  shows "out (checkValues comparor s) = out s \<and> dStopped (checkValues comparor s) \<and>
         isStopped (checkValues comparor s) = isStopped s \<and>
         bStopped (checkValues comparor s) = bStopped s"
proof -
  let ?P = "\<lambda>s' :: ('a, 'e) seq_state. out s' = out s \<and> dStopped s' \<and> isStopped s' = isStopped s \<and>
                  bStopped s' = bStopped s"
  have "?P (checkValues comparor s)"
  proof (rule checkValues_preserves [where P = ?P])
    fix a b as bs and s' :: "('a, 'e) seq_state"
    assume "?P s'"
    then show "?P (compare_pair comparor a b (s'\<lparr>buf_a := as, buf_b := bs\<rparr>))"
      by (simp add: compare_pair_areEqual split: sum.splits)
  next
    show "?P s" using assms by simp
  qed
  then show ?thesis .
qed

text \<open>
  Claim C3. Let \<^verbatim>\<open>checkValues\<close> run with a comparor \<open>f\<close> while the destination is active.
  If the first \<open>k\<close> pairs of buffered values compare equal and \<open>f\<close> raises \<open>e\<close> on the next
  pair, the terminal observer receives the error \<open>e\<close> at that point and nothing else: no
  boolean is emitted, the destination and both subscribers are stopped, and no later
  notification changes anything. The raised error is a value (\<open>Inl e\<close>) returned by the
  call, as \<^verbatim>\<open>tryCatch\<close> returns \<^verbatim>\<open>errorObject\<close>.
\<close>

theorem comparor_fault_is_forwarded:
  assumes "\<not> dStopped s"
    and "k < length (buf_a s)" and "k < length (buf_b s)"
    and "\<forall>i<k. f (buf_a s ! i) (buf_b s ! i) = Inr True"
    and "f (buf_a s ! k) (buf_b s ! k) = Inl e"
  shows "out (checkValues (Some f) s) = out s @ [Error e] \<and>
         dStopped (checkValues (Some f) s) \<and> isStopped (checkValues (Some f) s) \<and>
         bStopped (checkValues (Some f) s) \<and>
         (\<forall>es. run (Some f) es (checkValues (Some f) s) = checkValues (Some f) s)"
  using assms
proof (induction k arbitrary: s)
  case 0
  from "0.prems"(2,3) obtain a as b bs where A: "buf_a s = a # as" and B: "buf_b s = b # bs"
    by (cases "buf_a s"; cases "buf_b s") simp_all
  let ?s1 = "compare_pair (Some f) a b (s\<lparr>buf_a := as, buf_b := bs\<rparr>)"
  from "0.prems"(5) A B have f: "areEqual (Some f) a b = Inl e"
    by (simp add: areEqual_def)
  with "0.prems"(1) have s1: "out ?s1 = out s @ [Error e]" "dStopped ?s1" "isStopped ?s1" "bStopped ?s1"
    by (simp_all add: compare_pair_active)
  from checkValues_after_stop [OF s1(2), of "Some f"] s1
  have "out (checkValues (Some f) ?s1) = out s @ [Error e] \<and> dStopped (checkValues (Some f) ?s1) \<and>
        isStopped (checkValues (Some f) ?s1) \<and> bStopped (checkValues (Some f) ?s1)"
    by simp
  then show ?case
    by (simp add: checkValues_Cons [OF A B])
next
  case (Suc k)
  from Suc.prems(2,3) obtain a as b bs where A: "buf_a s = a # as" and B: "buf_b s = b # bs"
    by (cases "buf_a s"; cases "buf_b s") simp_all
  let ?s0 = "s\<lparr>buf_a := as, buf_b := bs\<rparr>"
  let ?s1 = "compare_pair (Some f) a b ?s0"
  from Suc.prems(4) A B have "f a b = Inr True"
    by fastforce
  then have eq: "areEqual (Some f) a b = Inr True"
    by (simp add: areEqual_def)
  with Suc.prems(1) have s1: "?s1 = ?s0\<lparr>calls := calls s @ [(a, b)]\<rparr>"
    by (simp add: compare_pair_active)
  have "out (checkValues (Some f) ?s1) = out ?s1 @ [Error e] \<and>
        dStopped (checkValues (Some f) ?s1) \<and> isStopped (checkValues (Some f) ?s1) \<and>
        bStopped (checkValues (Some f) ?s1) \<and>
        (\<forall>es. run (Some f) es (checkValues (Some f) ?s1) = checkValues (Some f) ?s1)"
  proof (rule Suc.IH)
    show "\<not> dStopped ?s1" using Suc.prems(1) by (simp add: s1)
    show "k < length (buf_a ?s1)" using Suc.prems(2) A by simp
    show "k < length (buf_b ?s1)" using Suc.prems(3) B by simp
    show "\<forall>i<k. f (buf_a ?s1 ! i) (buf_b ?s1 ! i) = Inr True"
    proof (intro allI impI)
      fix i assume "i < k"
      then have "Suc i < Suc k" by simp
      with Suc.prems(4) have "f (buf_a s ! Suc i) (buf_b s ! Suc i) = Inr True" by blast
      then show "f (buf_a ?s1 ! i) (buf_b ?s1 ! i) = Inr True" by (simp add: A B)
    qed
    show "f (buf_a ?s1 ! k) (buf_b ?s1 ! k) = Inl e"
      using Suc.prems(5) by (simp add: A B)
  qed
  moreover have "out ?s1 = out s" by (simp add: s1)
  ultimately show ?case
    by (simp add: checkValues_Cons [OF A B])
qed

theorem comparor_fault_is_forwarded_witness:
  "out (checkValues (Some (\<lambda>a b. if a = 3 then Inl ''boom'' else Inr (a = b)))
          ((init_state :: (nat, string) seq_state)\<lparr>buf_a := [2, 3], buf_b := [2, 3, 4]\<rparr>)) =
     [Error ''boom'']"
proof -
  let ?f = "\<lambda>(a::nat) (b::nat). if a = 3 then Inl ''boom'' else Inr (a = b)"
  let ?s = "(init_state :: (nat, string) seq_state)\<lparr>buf_a := [2, 3], buf_b := [2, 3, 4]\<rparr>"
  have h1: "\<not> dStopped ?s" by (simp add: init_state_def)
  have h2: "1 < length (buf_a ?s)" by simp
  have h3: "1 < length (buf_b ?s)" by simp
  have h4: "\<forall>i<1. ?f (buf_a ?s ! i) (buf_b ?s ! i) = Inr True" by simp
  have h5: "?f (buf_a ?s ! 1) (buf_b ?s ! 1) = Inl ''boom''" by simp
  have o: "out ?s = []" by (simp add: init_state_def)
  from comparor_fault_is_forwarded [of ?s 1 ?f "''boom''", OF h1 h2 h3 h4 h5]
  show ?thesis
    by (simp only: o append_Nil)
qed

section \<open>The first unequal pair\<close>

lemma step_calls_cases:
  assumes E: "buf_a s = [] \<or> buf_b s = []"
    and S: "dStopped s \<longrightarrow> isStopped s \<and> bStopped s"
  shows "calls (step comparor ev s) = calls s \<or>
         (\<exists>x y. \<not> dStopped s \<and> calls (step comparor ev s) = calls s @ [(x, y)] \<and>
            (areEqual comparor x y = Inr False \<longrightarrow>
               out (step comparor ev s) = out s @ [Next False, Complete] \<and>
               isStopped (step comparor ev s) \<and> bStopped (step comparor ev s) \<and>
               dStopped (step comparor ev s)))"
proof (cases "dStopped s")
  case True
  with S show ?thesis by simp
next
  case d: False
  show ?thesis
  proof (cases ev)
    case (A_next v)
    show ?thesis
    proof (cases "isStopped s")
      case True
      then show ?thesis by (simp add: A_next A_next_stopped)
    next
      case a: False
      show ?thesis
      proof (cases "buf_b s")
        case Nil
        with a d show ?thesis
          by (cases "oneComplete s") (simp_all add: A_next A_next_late A_next_buffer)
      next
        case (Cons b bs)
        with E have "buf_a s = []" by simp
        with a d Cons have "\<not> dStopped s \<and> calls (step comparor ev s) = calls s @ [(v, b)] \<and>
            (areEqual comparor v b = Inr False \<longrightarrow>
               out (step comparor ev s) = out s @ [Next False, Complete] \<and>
               isStopped (step comparor ev s) \<and> bStopped (step comparor ev s) \<and>
               dStopped (step comparor ev s))"
          by (simp add: A_next A_next_pair split: sum.splits)
        then show ?thesis by blast
      qed
    qed
  next
    case (B_next v)
    show ?thesis
    proof (cases "bStopped s")
      case True
      then show ?thesis by (simp add: B_next B_next_stopped)
    next
      case b: False
      show ?thesis
      proof (cases "buf_a s")
        case Nil
        with b d show ?thesis
          by (cases "oneComplete s") (simp_all add: B_next B_next_late B_next_buffer)
      next
        case (Cons a as)
        with E have "buf_b s = []" by simp
        with b d Cons have "\<not> dStopped s \<and> calls (step comparor ev s) = calls s @ [(a, v)] \<and>
            (areEqual comparor a v = Inr False \<longrightarrow>
               out (step comparor ev s) = out s @ [Next False, Complete] \<and>
               isStopped (step comparor ev s) \<and> bStopped (step comparor ev s) \<and>
               dStopped (step comparor ev s))"
          by (simp add: B_next B_next_pair split: sum.splits)
        then show ?thesis by blast
      qed
    qed
  next
    case (A_error e)
    with d show ?thesis
      by (cases "isStopped s") (simp_all add: A_error_stopped A_error_active)
  next
    case (B_error e)
    with d show ?thesis
      by (cases "bStopped s"; cases "isStopped s")
         (simp_all add: B_error_stopped B_error_swallowed B_error_active)
  next
    case A_complete
    with d show ?thesis
      by (cases "isStopped s"; cases "oneComplete s")
         (simp_all add: A_complete_stopped A_complete_first A_complete_second)
  next
    case B_complete
    with d show ?thesis
      by (cases "bStopped s"; cases "oneComplete s")
         (simp_all add: B_complete_stopped B_complete_first B_complete_second)
  qed
qed

text \<open>
  The loop of \<^verbatim>\<open>checkValues\<close> has no \<^verbatim>\<open>break\<close>: after an unequal pair it goes on while
  both buffers are non-empty. On a state with two pairs buffered the second pair is
  still compared, although nothing more is delivered. No schedule produces such a state
  (\<open>one_empty_run\<close>), so a drain compares at most one pair.
\<close>

lemma checkValues_without_break:
  "calls (checkValues None
            ((init_state :: (nat, unit) seq_state)\<lparr>buf_a := [7, 2], buf_b := [5, 2]\<rparr>)) =
     [(7, 5), (2, 2)] \<and>
   out (checkValues None
            ((init_state :: (nat, unit) seq_state)\<lparr>buf_a := [7, 2], buf_b := [5, 2]\<rparr>)) =
     [Next False, Complete]"
  by code_simp

text \<open>
  Claim C1. Take the state after any schedule \<open>es\<close> and one more notification \<open>ev\<close>. If
  handling \<open>ev\<close> compares a pair of buffered values (the \<open>i\<close>-th comparison overall) and
  the pair is unequal, then it is the only pair this drain compares, the terminal
  observer receives \<open>false\<close> and the completion, having received nothing before, the
  destination and both subscribers are stopped, and no later notification changes the
  state: what is left in a buffer is never looked at and no pair is compared again.
\<close>

theorem mismatch_short_circuits:
  assumes "length (calls (run comparor es init_state)) \<le> i"
    and "i < length (calls (step comparor ev (run comparor es init_state)))"
    and "areEqual comparor
           (fst (calls (step comparor ev (run comparor es init_state)) ! i))
           (snd (calls (step comparor ev (run comparor es init_state)) ! i)) = Inr False"
  shows "calls (step comparor ev (run comparor es init_state)) =
           calls (run comparor es init_state) @
             [calls (step comparor ev (run comparor es init_state)) ! i] \<and>
         out (step comparor ev (run comparor es init_state)) = [Next False, Complete] \<and>
         isStopped (step comparor ev (run comparor es init_state)) \<and>
         bStopped (step comparor ev (run comparor es init_state)) \<and>
         dStopped (step comparor ev (run comparor es init_state)) \<and>
         (\<forall>es'. run comparor es' (step comparor ev (run comparor es init_state)) =
                 step comparor ev (run comparor es init_state))"
proof -
  define s where "s = run comparor es init_state"
  define s' where "s' = step comparor ev s"
  have inv: "flags_inv es s"
    unfolding s_def by (rule flags_inv_run)
  note D = flags_invD [OF inv]
  from D(2,3) have S: "dStopped s \<longrightarrow> isStopped s \<and> bStopped s"
    by blast
  from assms have i: "length (calls s) \<le> i" "i < length (calls s')"
    and ne: "areEqual comparor (fst (calls s' ! i)) (snd (calls s' ! i)) = Inr False"
    unfolding s_def s'_def by simp_all
  from i have "calls s' \<noteq> calls s"
    by auto
  with step_calls_cases [OF D(1) S, of comparor ev] obtain x y
    where d: "\<not> dStopped s" and c: "calls s' = calls s @ [(x, y)]"
      and r: "areEqual comparor x y = Inr False \<longrightarrow>
                out s' = out s @ [Next False, Complete] \<and> isStopped s' \<and> bStopped s' \<and>
                dStopped s'"
    unfolding s'_def by blast
  from i c have "i = length (calls s)"
    by simp
  with c have p: "calls s' ! i = (x, y)"
    by simp
  from d have "out s = []"
    unfolding s_def by (rule out_empty_run)
  with r ne p c have "calls s' = calls s @ [calls s' ! i] \<and> out s' = [Next False, Complete] \<and>
      isStopped s' \<and> bStopped s' \<and> dStopped s'"
    by simp
  then show ?thesis
    unfolding s_def s'_def by simp
qed

theorem mismatch_short_circuits_witness:
  "calls (step None (B_next 5) (run None [A_next (7::nat)] (init_state :: (nat, unit) seq_state))) =
     [(7, 5)] \<and>
   out (step None (B_next 5) (run None [A_next (7::nat)] (init_state :: (nat, unit) seq_state))) =
     [Next False, Complete]"
proof -
  let ?s = "run None [A_next (7::nat)] (init_state :: (nat, unit) seq_state)"
  have h1: "length (calls ?s) \<le> 0"
    by code_simp
  have h2: "0 < length (calls (step None (B_next 5) ?s))"
    by code_simp
  have h3: "areEqual (None :: (nat, unit) comparor) (fst (calls (step None (B_next 5) ?s) ! 0))
              (snd (calls (step None (B_next 5) ?s) ! 0)) = Inr False"
    by code_simp
  have c: "calls ?s @ [calls (step None (B_next 5) ?s) ! 0] = [(7, 5)]"
    by code_simp
  from mismatch_short_circuits [of None "[A_next 7]" 0 "B_next 5", OF h1 h2 h3]
  show ?thesis
    unfolding c by blast
qed

section \<open>Independence of the interleaving\<close>

lemma seq_result_Nil_right: "seq_result comparor xs [] = [Next (xs = []), Complete]"
  by (cases xs) simp_all

lemma seq_result_Nil_left: "seq_result comparor [] ys = [Next (ys = []), Complete]"
  by (cases ys) simp_all

lemma collecting_A_complete:
  assumes "collecting s (Some []) rb"
  shows "isStopped (step comparor A_complete s) \<and> bStopped (step comparor A_complete s) \<and>
         out (step comparor A_complete s) = seq_result comparor (buf_a s) (buf_b s @ rest_of rb) \<or>
         collecting (step comparor A_complete s) None rb \<and>
         buf_a (step comparor A_complete s) = buf_a s \<and>
         buf_b (step comparor A_complete s) = buf_b s"
proof (cases rb)
  case None
  with assms have f: "\<not> isStopped s" "\<not> dStopped s" "oneComplete s" "out s = []"
    and E: "buf_a s = [] \<or> buf_b s = []"
    by (simp_all add: collecting_def)
  from E have "seq_result comparor (buf_a s) (buf_b s) = [Next (buf_a s = [] \<and> buf_b s = []), Complete]"
    by (auto simp: seq_result_Nil_left seq_result_Nil_right)
  with f None show ?thesis
    by (simp add: A_complete_second)
next
  case (Some ys)
  with assms have f: "\<not> isStopped s" "\<not> oneComplete s"
    by (simp_all add: collecting_def)
  from assms Some have "collecting (s\<lparr>isStopped := True, oneComplete := True\<rparr>) None rb"
    by (simp add: collecting_def)
  with f show ?thesis
    by (simp add: A_complete_first)
qed

lemma collecting_B_complete:
  assumes "collecting s ra (Some [])"
  shows "isStopped (step comparor B_complete s) \<and> bStopped (step comparor B_complete s) \<and>
         out (step comparor B_complete s) = seq_result comparor (buf_a s @ rest_of ra) (buf_b s) \<or>
         collecting (step comparor B_complete s) ra None \<and>
         buf_a (step comparor B_complete s) = buf_a s \<and>
         buf_b (step comparor B_complete s) = buf_b s"
proof (cases ra)
  case None
  with assms have f: "\<not> bStopped s" "\<not> dStopped s" "oneComplete s" "out s = []"
    and E: "buf_a s = [] \<or> buf_b s = []"
    by (simp_all add: collecting_def)
  from E have "seq_result comparor (buf_a s) (buf_b s) = [Next (buf_a s = [] \<and> buf_b s = []), Complete]"
    by (auto simp: seq_result_Nil_left seq_result_Nil_right)
  with f None show ?thesis
    by (simp add: B_complete_second)
next
  case (Some xs)
  with assms have f: "\<not> bStopped s" "\<not> oneComplete s"
    by (simp_all add: collecting_def)
  from assms Some have "collecting (s\<lparr>bStopped := True, oneComplete := True\<rparr>) ra None"
    by (simp add: collecting_def)
  with f show ?thesis
    by (simp add: B_complete_first)
qed

lemma collecting_A_next:
  assumes "collecting s (Some (x # xs)) rb"
  shows "isStopped (step comparor (A_next x) s) \<and> bStopped (step comparor (A_next x) s) \<and>
         out (step comparor (A_next x) s) =
           seq_result comparor (buf_a s @ x # xs) (buf_b s @ rest_of rb) \<or>
         collecting (step comparor (A_next x) s) (Some xs) rb \<and>
         seq_result comparor (buf_a (step comparor (A_next x) s) @ xs)
           (buf_b (step comparor (A_next x) s) @ rest_of rb) =
           seq_result comparor (buf_a s @ x # xs) (buf_b s @ rest_of rb)"
proof -
  from assms have f: "\<not> isStopped s" "\<not> dStopped s" "out s = []"
    and E: "buf_a s = [] \<or> buf_b s = []"
    and one: "oneComplete s \<longleftrightarrow> rb = None"
    by (simp_all add: collecting_def)
  show ?thesis
  proof (cases "buf_b s")
    case Nil
    show ?thesis
    proof (cases "oneComplete s")
      case True
      with one have "rest_of rb = []" by simp
      with f True Nil show ?thesis
        by (simp add: A_next_late seq_result_Nil_right)
    next
      case False
      from assms False Nil have "collecting (s\<lparr>buf_a := buf_a s @ [x]\<rparr>) (Some xs) rb"
        by (simp add: collecting_def)
      with f False Nil show ?thesis
        by (simp add: A_next_buffer)
    qed
  next
    case (Cons b bs)
    with E have A: "buf_a s = []" by simp
    show ?thesis
    proof (cases "areEqual comparor x b")
      case (Inl e)
      with f A Cons show ?thesis
        by (simp add: A_next_pair)
    next
      case (Inr eq)
      show ?thesis
      proof (cases eq)
        case True
        from assms A Cons
        have "collecting (s\<lparr>buf_b := bs, calls := calls s @ [(x, b)]\<rparr>) (Some xs) rb"
          by (simp add: collecting_def)
        with f A Cons Inr True show ?thesis
          by (simp add: A_next_pair)
      next
        case False
        with f A Cons Inr show ?thesis
          by (simp add: A_next_pair)
      qed
    qed
  qed
qed

lemma collecting_B_next:
  assumes "collecting s ra (Some (y # ys))"
  shows "isStopped (step comparor (B_next y) s) \<and> bStopped (step comparor (B_next y) s) \<and>
         out (step comparor (B_next y) s) =
           seq_result comparor (buf_a s @ rest_of ra) (buf_b s @ y # ys) \<or>
         collecting (step comparor (B_next y) s) ra (Some ys) \<and>
         seq_result comparor (buf_a (step comparor (B_next y) s) @ rest_of ra)
           (buf_b (step comparor (B_next y) s) @ ys) =
           seq_result comparor (buf_a s @ rest_of ra) (buf_b s @ y # ys)"
proof -
  from assms have f: "\<not> bStopped s" "\<not> dStopped s" "out s = []"
    and E: "buf_a s = [] \<or> buf_b s = []"
    and one: "oneComplete s \<longleftrightarrow> ra = None"
    by (simp_all add: collecting_def)
  show ?thesis
  proof (cases "buf_a s")
    case Nil
    show ?thesis
    proof (cases "oneComplete s")
      case True
      with one have "rest_of ra = []" by simp
      with f True Nil show ?thesis
        by (simp add: B_next_late seq_result_Nil_left)
    next
      case False
      from assms False Nil have "collecting (s\<lparr>buf_b := buf_b s @ [y]\<rparr>) ra (Some ys)"
        by (simp add: collecting_def)
      with f False Nil show ?thesis
        by (simp add: B_next_buffer)
    qed
  next
    case (Cons a as)
    with E have B: "buf_b s = []" by simp
    show ?thesis
    proof (cases "areEqual comparor a y")
      case (Inl e)
      with f B Cons show ?thesis
        by (simp add: B_next_pair)
    next
      case (Inr eq)
      show ?thesis
      proof (cases eq)
        case True
        from assms B Cons
        have "collecting (s\<lparr>buf_a := as, calls := calls s @ [(a, y)]\<rparr>) ra (Some ys)"
          by (simp add: collecting_def)
        with f B Cons Inr True show ?thesis
          by (simp add: B_next_pair)
      next
        case False
        with f B Cons Inr show ?thesis
          by (simp add: B_next_pair)
      qed
    qed
  qed
qed


lemma pendA_Cons:
  "pendA (Some []) = A_complete # pendA None"
  "pendA (Some (x # xs)) = A_next x # pendA (Some xs)"
  by simp_all

lemma pendB_Cons:
  "pendB (Some []) = B_complete # pendB None"
  "pendB (Some (y # ys)) = B_next y # pendB (Some ys)"
  by simp_all

lemma run_collecting:
  assumes "collecting (s :: ('a, 'e) seq_state) ra rb"
    and "es \<in> shuffles (pendA ra) (pendB rb)"
  shows "out (run comparor es s) =
           seq_result comparor (buf_a s @ rest_of ra) (buf_b s @ rest_of rb)"
  using assms
proof (induction es arbitrary: s ra rb)
  case Nil
  from Nil.prems(2) have "ra = None" "rb = None"
    by (cases ra; cases rb; simp)+
  with Nil.prems(1) show ?case
    by (simp add: collecting_def)
next
  case (Cons ev es)
  let ?R = "seq_result comparor (buf_a s @ rest_of ra) (buf_b s @ rest_of rb)"
  let ?s' = "step comparor ev s"
  have decided: "out (run comparor (ev # es) s) = ?R"
    if "isStopped ?s'" "bStopped ?s'" "out ?s' = ?R"
    using that by simp
  let ?A = "pendA ra :: ('a, 'e) event list"
  let ?B = "pendB rb :: ('a, 'e) event list"
  from Cons.prems(2) consider
    (A) "?A \<noteq> []" "hd ?A = ev" "es \<in> shuffles (tl ?A) ?B"
  | (B) "?B \<noteq> []" "hd ?B = ev" "es \<in> shuffles ?A (tl ?B)"
    unfolding Cons_in_shuffles_iff by blast
  then show ?case
  proof cases
    case A
    from A(1) obtain xs where ra: "ra = Some xs"
      by (cases ra) simp_all
    show ?thesis
    proof (cases xs)
      case Nil
      with A ra have ev: "ev = A_complete" and es: "es \<in> shuffles (pendA None) (pendB rb)"
        by simp_all
      from Cons.prems(1) ra Nil have c: "collecting s (Some []) rb"
        by simp
      from collecting_A_complete [OF c, of comparor] show ?thesis
      proof (elim disjE conjE)
        assume "isStopped (step comparor A_complete s)" "bStopped (step comparor A_complete s)"
          "out (step comparor A_complete s) = seq_result comparor (buf_a s) (buf_b s @ rest_of rb)"
        then show ?thesis
          by (intro decided) (simp_all add: ev ra Nil)
      next
        assume c': "collecting (step comparor A_complete s) None rb"
          and b: "buf_a (step comparor A_complete s) = buf_a s"
            "buf_b (step comparor A_complete s) = buf_b s"
        from Cons.IH [OF c' es] b show ?thesis
          by (simp add: ev ra Nil)
      qed
    next
      case (Cons x xs')
      with A ra have ev: "ev = A_next x" and es: "es \<in> shuffles (pendA (Some xs')) (pendB rb)"
        by simp_all
      from Cons.prems(1) ra Cons have c: "collecting s (Some (x # xs')) rb"
        by simp
      from collecting_A_next [OF c, of comparor] show ?thesis
      proof (elim disjE conjE)
        assume "isStopped (step comparor (A_next x) s)" "bStopped (step comparor (A_next x) s)"
          "out (step comparor (A_next x) s) =
             seq_result comparor (buf_a s @ x # xs') (buf_b s @ rest_of rb)"
        then show ?thesis
          by (intro decided) (simp_all add: ev ra Cons)
      next
        assume c': "collecting (step comparor (A_next x) s) (Some xs') rb"
          and r: "seq_result comparor (buf_a (step comparor (A_next x) s) @ xs')
                    (buf_b (step comparor (A_next x) s) @ rest_of rb) =
                  seq_result comparor (buf_a s @ x # xs') (buf_b s @ rest_of rb)"
        from Cons.IH [OF c' es] r show ?thesis
          by (simp add: ev ra Cons)
      qed
    qed
  next
    case B
    from B(1) obtain ys where rb: "rb = Some ys"
      by (cases rb) simp_all
    show ?thesis
    proof (cases ys)
      case Nil
      with B rb have ev: "ev = B_complete" and es: "es \<in> shuffles (pendA ra) (pendB None)"
        by simp_all
      from Cons.prems(1) rb Nil have c: "collecting s ra (Some [])"
        by simp
      from collecting_B_complete [OF c, of comparor] show ?thesis
      proof (elim disjE conjE)
        assume "isStopped (step comparor B_complete s)" "bStopped (step comparor B_complete s)"
          "out (step comparor B_complete s) = seq_result comparor (buf_a s @ rest_of ra) (buf_b s)"
        then show ?thesis
          by (intro decided) (simp_all add: ev rb Nil)
      next
        assume c': "collecting (step comparor B_complete s) ra None"
          and b: "buf_a (step comparor B_complete s) = buf_a s"
            "buf_b (step comparor B_complete s) = buf_b s"
        from Cons.IH [OF c' es] b show ?thesis
          by (simp add: ev rb Nil)
      qed
    next
      case (Cons y ys')
      with B rb have ev: "ev = B_next y" and es: "es \<in> shuffles (pendA ra) (pendB (Some ys'))"
        by simp_all
      from Cons.prems(1) rb Cons have c: "collecting s ra (Some (y # ys'))"
        by simp
      from collecting_B_next [OF c, of comparor] show ?thesis
      proof (elim disjE conjE)
        assume "isStopped (step comparor (B_next y) s)" "bStopped (step comparor (B_next y) s)"
          "out (step comparor (B_next y) s) =
             seq_result comparor (buf_a s @ rest_of ra) (buf_b s @ y # ys')"
        then show ?thesis
          by (intro decided) (simp_all add: ev rb Cons)
      next
        assume c': "collecting (step comparor (B_next y) s) ra (Some ys')"
          and r: "seq_result comparor (buf_a (step comparor (B_next y) s) @ rest_of ra)
                    (buf_b (step comparor (B_next y) s) @ ys') =
                  seq_result comparor (buf_a s @ rest_of ra) (buf_b s @ y # ys')"
        from Cons.IH [OF c' es] r show ?thesis
          by (simp add: ev rb Cons)
      qed
    qed
  qed
qed

lemma sequenceEqual_result:
  assumes "es \<in> shuffles (map A_next xs @ [A_complete]) (map B_next ys @ [B_complete])"
  shows "out (run comparor es init_state) = seq_result comparor xs ys"
proof -
  have "collecting (init_state :: ('a, 'b) seq_state) (Some xs) (Some ys)"
    by (simp add: collecting_def init_state_def)
  from run_collecting [OF this, of es comparor] assms show ?thesis
    by (simp add: init_state_def)
qed

text \<open>
  Claim C6. Let the primary source push the values \<open>xs\<close> and then complete, and the
  secondary source push \<open>ys\<close> and then complete. Any two interleavings \<open>es1\<close> and \<open>es2\<close> of
  the two sequences of notifications deliver the same notifications to the terminal
  observer (by \<open>sequenceEqual_result\<close>, those of the position-by-position comparison
  \<open>seq_result\<close>).
\<close>

theorem interleaving_independent:
  assumes "es1 \<in> shuffles (map A_next xs @ [A_complete]) (map B_next ys @ [B_complete])"
    and "es2 \<in> shuffles (map A_next xs @ [A_complete]) (map B_next ys @ [B_complete])"
  shows "out (run comparor es1 init_state) = out (run comparor es2 init_state)"
  using sequenceEqual_result [OF assms(1), of comparor] sequenceEqual_result [OF assms(2), of comparor]
  by simp


theorem interleaving_independent_witness:
  "out (run None [A_next (7::nat), A_next 8, A_complete, B_next 7, B_next 8, B_complete]
          (init_state :: (nat, unit) seq_state)) =
   out (run None [B_next (7::nat), A_next 7, B_next 8, B_complete, A_next 8, A_complete]
          (init_state :: (nat, unit) seq_state))"
proof -
  let ?e1 = "[A_next (7::nat), A_next 8, A_complete, B_next 7, B_next 8, B_complete]
               :: (nat, unit) event list"
  let ?e2 = "[B_next (7::nat), A_next 7, B_next 8, B_complete, A_next 8, A_complete]
               :: (nat, unit) event list"
  have h1: "?e1 \<in> shuffles (map A_next [7, 8] @ [A_complete]) (map B_next [7, 8] @ [B_complete])"
    by (simp add: Cons_in_shuffles_iff)
  have h2: "?e2 \<in> shuffles (map A_next [7, 8] @ [A_complete]) (map B_next [7, 8] @ [B_complete])"
    by (simp add: Cons_in_shuffles_iff)
  show ?thesis
    by (rule interleaving_independent [of ?e1 "[7, 8]" "[7, 8]" ?e2 None, OF h1 h2])
qed

end
